theory Spec2Isabelle
  imports Complex_Main "HOL-Library.Sublist"
begin

section \<open>Common data: bytes, exceptions, the multipart chunk\<close>

text \<open>
  Both programs (\<^verbatim>\<open>main.py\<close>, the detection server, and \<^verbatim>\<open>pi_camera.py\<close>, the plain
  camera server) are Flask applications with one background capture thread and one
  generator per connected client. Python \<^verbatim>\<open>bytes\<close> and \<^verbatim>\<open>str\<close> are modelled as
  \<^typ>\<open>string\<close> (a list of 8-bit characters). An exception is a value carrying the name
  of its class.
\<close>

type_synonym bytes = string

datatype error = Exception string

fun ebind :: "error + 'a \<Rightarrow> ('a \<Rightarrow> error + 'b) \<Rightarrow> error + 'b" where
  "ebind (Inl e) f = Inl e"
| "ebind (Inr x) f = f x"

definition CRLF :: bytes where
  "CRLF = [CHR 0x0D, CHR 0x0A]"

text \<open>
  The value of the \<^verbatim>\<open>yield\<close> expression of both generators:
  \<^verbatim>\<open>b'--frame\r\n' b'Content-Type: image/jpeg\r\n\r\n' + payload + b'\r\n'\<close>.
\<close>

definition chunk :: "bytes \<Rightarrow> bytes" where
  "chunk payload =
     (''--frame'' @ CRLF @ ''Content-Type: image/jpeg'' @ CRLF @ CRLF) @ payload @ CRLF"

text \<open>The \<^verbatim>\<open>mimetype\<close> argument of the \<^verbatim>\<open>Response\<close> of \<^verbatim>\<open>video_feed\<close>, in each file.\<close>

definition video_feed_mimetype :: string where
  "video_feed_mimetype = ''multipart/x-mixed-replace; boundary=frame''"

definition pi_video_feed_mimetype :: string where
  "pi_video_feed_mimetype = ''multipart/x-mixed-replace; boundary=frame''"

section \<open>main.py: the detection server\<close>

subsection \<open>Detector output and the published detection records\<close>

text \<open>
  Floating-point numbers are values of a type parameter \<open>'f\<close>; their arithmetic is part
  of the external functions below. An image is a value of a type parameter \<open>'img\<close>.
  A box of the detector carries \<^verbatim>\<open>box.xyxy[0].tolist()\<close>, \<^verbatim>\<open>box.conf[0].item()\<close> and
  \<^verbatim>\<open>box.cls[0].item()\<close>; a result carries the boxes and the dictionary \<^verbatim>\<open>names\<close>.
\<close>

record 'f box =
  xyxy :: "'f \<times> 'f \<times> 'f \<times> 'f"
  conf :: 'f
  cls :: 'f

record 'f yolo_result =
  boxes :: "'f box list"
  names :: "int \<Rightarrow> string option"

text \<open>The dictionary appended to \<^verbatim>\<open>current_detections\<close>, its keys in insertion order.\<close>

record 'f detection =
  bbox :: "'f list"
  confidence :: 'f
  class_id :: int
  class_name :: string
  center_x :: 'f
  center_y :: 'f

subsection \<open>The encoder's buffer\<close>

text \<open>
  The second component of the pair \<^verbatim>\<open>cv2.imencode\<close> returns: the array of the encoded bytes,
  or the empty tuple \<^verbatim>\<open>()\<close> that comes with the flag \<^verbatim>\<open>False\<close>. \<^verbatim>\<open>buffer.tobytes()\<close> gives the
  bytes of an array; a tuple has no attribute \<^verbatim>\<open>tobytes\<close>.
\<close>

datatype buffer = Ndarray bytes | Empty_Tuple

fun tobytes :: "buffer \<Rightarrow> error + bytes" where
  "tobytes (Ndarray b) = Inr b"
| "tobytes Empty_Tuple = Inl (Exception ''AttributeError'')"

subsection \<open>External collaborators\<close>

text \<open>
  Everything the program calls and does not define: the camera (\<^verbatim>\<open>cv2.VideoCapture\<close>),
  the detector (\<^verbatim>\<open>model(img)\<close>, then \<^verbatim>\<open>results[0]\<close>), the drawing and encoding functions
  of OpenCV, float arithmetic and formatting, and the string and float encoders of
  \<^verbatim>\<open>json.dumps\<close>. A call that can raise returns a sum. \<open>cap_read k\<close> is the result of the
  \<open>k\<close>-th call of \<^verbatim>\<open>cap.read()\<close>: \<open>None\<close> when \<^verbatim>\<open>ret\<close> is false. The constant
  arguments of the drawing calls (colour \<^verbatim>\<open>(0, 255, 0)\<close>, thickness \<^verbatim>\<open>2\<close>, font and scale)
  and the \<^verbatim>\<open>'.jpg'\<close> of \<^verbatim>\<open>imencode\<close> are part of the external function.
\<close>

record ('img, 'f) externals =
  isOpened :: bool
  cap_read :: "nat \<Rightarrow> 'img option"
  model_call :: "'img \<Rightarrow> error + 'f yolo_result"
  rectangle :: "'img \<Rightarrow> int \<times> int \<Rightarrow> int \<times> int \<Rightarrow> error + 'img"
  putText :: "'img \<Rightarrow> string \<Rightarrow> int \<times> int \<Rightarrow> error + 'img"
  imencode :: "'img \<Rightarrow> error + bool \<times> buffer"
  fadd :: "'f \<Rightarrow> 'f \<Rightarrow> 'f"
  fsub :: "'f \<Rightarrow> 'f \<Rightarrow> 'f"
  fdiv :: "'f \<Rightarrow> 'f \<Rightarrow> 'f"
  float_of_int :: "int \<Rightarrow> 'f"
  py_int :: "'f \<Rightarrow> error + int"
  format_2f :: "'f \<Rightarrow> string"
  json_float :: "'f \<Rightarrow> string"
  json_string :: "string \<Rightarrow> string"

text \<open>\<^verbatim>\<open>img.copy()\<close> and \<^verbatim>\<open>frame.copy()\<close>: a new array with the same contents.\<close>

definition copy :: "'img \<Rightarrow> 'img" where
  "copy img = img"

subsection \<open>One iteration of the capture loop, after the read\<close>

text \<open>
  The body of \<^verbatim>\<open>for box in result.boxes\<close>: the detection record is appended, then the
  rectangle and the label are drawn on \<^verbatim>\<open>img\<close>. \<^verbatim>\<open>int(...)\<close> of a float, the lookup
  \<^verbatim>\<open>result.names[cls]\<close> and the drawing calls can raise; the exception leaves the loop.
\<close>

definition process_box ::
  "('img, 'f) externals \<Rightarrow> (int \<Rightarrow> string option) \<Rightarrow> 'img \<times> 'f detection list \<Rightarrow> 'f box
     \<Rightarrow> error + 'img \<times> 'f detection list" where
  "process_box X nm acc b =
     (case acc of (img, current_detections) \<Rightarrow>
      (case xyxy b of (x1, y1, x2, y2) \<Rightarrow>
        ebind (py_int X (cls b)) (\<lambda>c.
        (case nm c of
           None \<Rightarrow> Inl (Exception ''KeyError'')
         | Some cname \<Rightarrow>
            (let cx = fdiv X (fadd X x1 x2) (float_of_int X 2);
                 cy = fdiv X (fadd X y1 y2) (float_of_int X 2);
                 d = \<lparr>bbox = [x1, y1, x2, y2], confidence = conf b, class_id = c,
                      class_name = cname, center_x = cx, center_y = cy\<rparr>
             in
               ebind (py_int X x1) (\<lambda>ix1.
               ebind (py_int X y1) (\<lambda>iy1.
               ebind (py_int X x2) (\<lambda>ix2.
               ebind (py_int X y2) (\<lambda>iy2.
               ebind (rectangle X img (ix1, iy1) (ix2, iy2)) (\<lambda>img1.
               ebind (py_int X x1) (\<lambda>jx1.
               ebind (py_int X (fsub X y1 (float_of_int X 10))) (\<lambda>jy1.
               ebind (putText X img1 (cname @ '': '' @ format_2f X (conf b)) (jx1, jy1)) (\<lambda>img2.
               Inr (img2, current_detections @ [d]))))))))))))))"

fun process_boxes ::
  "('img, 'f) externals \<Rightarrow> (int \<Rightarrow> string option) \<Rightarrow> 'img \<times> 'f detection list \<Rightarrow> 'f box list
     \<Rightarrow> error + 'img \<times> 'f detection list" where
  "process_boxes X nm acc [] = Inr acc"
| "process_boxes X nm acc (b # bs) =
     ebind (process_box X nm acc b) (\<lambda>acc'. process_boxes X nm acc' bs)"

text \<open>
  From \<^verbatim>\<open>results = model(img)\<close> to the end of the \<^verbatim>\<open>for\<close> loop: the annotated image
  and \<^verbatim>\<open>current_detections\<close>, or the exception raised on the way.
\<close>

definition process :: "('img, 'f) externals \<Rightarrow> 'img \<Rightarrow> error + 'img \<times> 'f detection list" where
  "process X img =
     ebind (model_call X img) (\<lambda>result. process_boxes X (names result) (img, []) (boxes result))"

subsection \<open>\<^verbatim>\<open>json.dumps(detections)\<close>\<close>

fun join :: "string \<Rightarrow> string list \<Rightarrow> string" where
  "join sep [] = []"
| "join sep [x] = x"
| "join sep (x # y # ys) = x @ sep @ join sep (y # ys)"

function dec_nat :: "nat \<Rightarrow> string" where
  "dec_nat n = (if n < 10 then [char_of (48 + n)] else dec_nat (n div 10) @ [char_of (48 + n mod 10)])"
  by pat_completeness auto
termination
  by (relation "measure (\<lambda>n. n)") auto

definition json_int :: "int \<Rightarrow> string" where
  "json_int i = (if i < 0 then ''-'' @ dec_nat (nat (- i)) else dec_nat (nat i))"

definition json_detection :: "('img, 'f) externals \<Rightarrow> 'f detection \<Rightarrow> string" where
  "json_detection X d =
     ''{'' @ join '', ''
       [json_string X ''bbox'' @ '': '' @ (''['' @ join '', '' (map (json_float X) (bbox d)) @ '']''),
        json_string X ''confidence'' @ '': '' @ json_float X (confidence d),
        json_string X ''class_id'' @ '': '' @ json_int (class_id d),
        json_string X ''class_name'' @ '': '' @ json_string X (class_name d),
        json_string X ''center_x'' @ '': '' @ json_float X (center_x d),
        json_string X ''center_y'' @ '': '' @ json_float X (center_y d)] @ ''}''"

definition json_dumps :: "('img, 'f) externals \<Rightarrow> 'f detection list \<Rightarrow> string" where
  "json_dumps X ds = ''['' @ join '', '' (map (json_detection X) ds) @ '']''"

subsection \<open>Threads and shared state\<close>

text \<open>
  The globals \<^verbatim>\<open>frame\<close>, \<^verbatim>\<open>detections\<close> and \<^verbatim>\<open>lock\<close>, the capture thread, one generator per
  \<^verbatim>\<open>GET /video_feed\<close> and one handler per \<^verbatim>\<open>GET /detections\<close>. Threads interleave at the
  granularity of one statement; a thread that waits for the lock does not move. The
  position of each thread is its program counter, carrying its local variables.
\<close>

datatype tid = T_Capture | T_Session nat | T_Query nat

datatype ('img, 'f) cap_pc =
    C_Start
  | C_Loop
  | C_Acquire 'img "'f detection list"
  | C_WriteFrame 'img "'f detection list"
  | C_WriteDets "'f detection list"
  | C_Release
  | C_Done
  | C_Crashed error

datatype 'img sess_pc =
    S_Check
  | S_Sleep
  | S_Acquire
  | S_Copy
  | S_Release 'img
  | S_Encode 'img
  | S_Yield
  | S_Closed
  | S_Dead error

record 'img sess =
  spc :: "'img sess_pc"
  out :: "bytes list"

datatype qry_pc = Q_Acquire | Q_Dump | Q_Release string | Q_Done string

record ('img, 'f) sys =
  frame :: "'img option"
  detections :: "'f detection list"
  lock :: "tid option"
  nreads :: nat
  cap :: "('img, 'f) cap_pc"
  stdout :: "string list"
  sessions :: "'img sess list"
  queries :: "qry_pc list"

definition init :: "('img, 'f) sys" where
  "init = \<lparr>frame = None, detections = [], lock = None, nreads = 0, cap = C_Start,
           stdout = [], sessions = [], queries = []\<rparr>"

text \<open>
  \<^verbatim>\<open>capture_video\<close>, one statement at a time. \<open>C_Loop\<close> is the top of \<^verbatim>\<open>while True\<close>: the
  read, the detector call and the annotation touch no shared variable and are one step.
\<close>

definition capture_step :: "('img, 'f) externals \<Rightarrow> ('img, 'f) sys \<Rightarrow> ('img, 'f) sys" where
  "capture_step X s =
     (case cap s of
        C_Start \<Rightarrow>
          (if isOpened X then s\<lparr>cap := C_Loop\<rparr>
           else s\<lparr>stdout := stdout s @ [''Error: Could not open camera.''], cap := C_Done\<rparr>)
      | C_Loop \<Rightarrow>
          (case cap_read X (nreads s) of
             None \<Rightarrow> s\<lparr>nreads := Suc (nreads s), cap := C_Done\<rparr>
           | Some img \<Rightarrow>
               (case process X img of
                  Inl e \<Rightarrow> s\<lparr>nreads := Suc (nreads s), cap := C_Crashed e\<rparr>
                | Inr (img', current_detections) \<Rightarrow>
                    s\<lparr>nreads := Suc (nreads s), cap := C_Acquire img' current_detections\<rparr>))
      | C_Acquire img ds \<Rightarrow>
          (if lock s = None then s\<lparr>lock := Some T_Capture, cap := C_WriteFrame img ds\<rparr> else s)
      | C_WriteFrame img ds \<Rightarrow> s\<lparr>frame := Some (copy img), cap := C_WriteDets ds\<rparr>
      | C_WriteDets ds \<Rightarrow> s\<lparr>detections := ds, cap := C_Release\<rparr>
      | C_Release \<Rightarrow> s\<lparr>lock := None, cap := C_Loop\<rparr>
      | C_Done \<Rightarrow> s
      | C_Crashed e \<Rightarrow> s)"

text \<open>
  \<^verbatim>\<open>generate_frames\<close> for the session \<open>i\<close>. The test \<^verbatim>\<open>frame is None\<close> reads the global
  without the lock. \<open>S_Encode\<close> is \<^verbatim>\<open>_, buffer = cv2.imencode('.jpg', img)\<close> followed by
  \<^verbatim>\<open>jpg_bytes = buffer.tobytes()\<close> and the evaluation of the \<^verbatim>\<open>yield\<close> expression: they touch
  only local variables, the flag is bound to \<^verbatim>\<open>_\<close> and not read, and an exception of either
  call ends the generator. \<open>S_Yield\<close> is the generator suspended at its \<^verbatim>\<open>yield\<close>, the chunk
  handed to the server and appended to \<open>out\<close>.
\<close>

definition set_session :: "nat \<Rightarrow> 'img sess \<Rightarrow> ('img, 'f) sys \<Rightarrow> ('img, 'f) sys" where
  "set_session i ss s = s\<lparr>sessions := (sessions s)[i := ss]\<rparr>"

definition session_step :: "('img, 'f) externals \<Rightarrow> nat \<Rightarrow> ('img, 'f) sys \<Rightarrow> ('img, 'f) sys" where
  "session_step X i s =
     (if i < length (sessions s) then
        (let ss = sessions s ! i in
         case spc ss of
           S_Check \<Rightarrow>
             (case frame s of
                None \<Rightarrow> set_session i (ss\<lparr>spc := S_Sleep\<rparr>) s
              | Some f \<Rightarrow> set_session i (ss\<lparr>spc := S_Acquire\<rparr>) s)
         | S_Sleep \<Rightarrow> set_session i (ss\<lparr>spc := S_Check\<rparr>) s
         | S_Acquire \<Rightarrow>
             (if lock s = None
              then set_session i (ss\<lparr>spc := S_Copy\<rparr>) (s\<lparr>lock := Some (T_Session i)\<rparr>)
              else s)
         | S_Copy \<Rightarrow>
             (case frame s of
                None \<Rightarrow>
                  set_session i (ss\<lparr>spc := S_Dead (Exception ''AttributeError'')\<rparr>) (s\<lparr>lock := None\<rparr>)
              | Some f \<Rightarrow> set_session i (ss\<lparr>spc := S_Release (copy f)\<rparr>) s)
         | S_Release img \<Rightarrow> set_session i (ss\<lparr>spc := S_Encode img\<rparr>) (s\<lparr>lock := None\<rparr>)
         | S_Encode img \<Rightarrow>
             (case imencode X img of
                Inl e \<Rightarrow> set_session i (ss\<lparr>spc := S_Dead e\<rparr>) s
              | Inr (ok, buffer) \<Rightarrow>
                  (case tobytes buffer of
                     Inl e \<Rightarrow> set_session i (ss\<lparr>spc := S_Dead e\<rparr>) s
                   | Inr jpg_bytes \<Rightarrow>
                       set_session i (ss\<lparr>spc := S_Yield, out := out ss @ [chunk jpg_bytes]\<rparr>) s))
         | S_Yield \<Rightarrow> set_session i (ss\<lparr>spc := S_Check\<rparr>) s
         | S_Closed \<Rightarrow> s
         | S_Dead e \<Rightarrow> s)
      else s)"

text \<open>The client of session \<open>i\<close> goes away: the generator is closed at its \<^verbatim>\<open>yield\<close>.\<close>

definition disconnect :: "nat \<Rightarrow> ('img, 'f) sys \<Rightarrow> ('img, 'f) sys" where
  "disconnect i s =
     (if i < length (sessions s) \<and> spc (sessions s ! i) = S_Yield
      then set_session i ((sessions s ! i)\<lparr>spc := S_Closed\<rparr>) s else s)"

text \<open>\<^verbatim>\<open>get_detections\<close> for the request \<open>j\<close>: \<^verbatim>\<open>with lock: return json.dumps(detections)\<close>.\<close>

definition query_step :: "('img, 'f) externals \<Rightarrow> nat \<Rightarrow> ('img, 'f) sys \<Rightarrow> ('img, 'f) sys" where
  "query_step X j s =
     (if j < length (queries s) then
        (case queries s ! j of
           Q_Acquire \<Rightarrow>
             (if lock s = None
              then s\<lparr>lock := Some (T_Query j), queries := (queries s)[j := Q_Dump]\<rparr>
              else s)
         | Q_Dump \<Rightarrow> s\<lparr>queries := (queries s)[j := Q_Release (json_dumps X (detections s))]\<rparr>
         | Q_Release r \<Rightarrow> s\<lparr>lock := None, queries := (queries s)[j := Q_Done r]\<rparr>
         | Q_Done r \<Rightarrow> s)
      else s)"

text \<open>
  What the scheduler and the clients can do next: run one statement of a thread, open a
  new \<^verbatim>\<open>GET /video_feed\<close> or \<^verbatim>\<open>GET /detections\<close>, or close a stream.
\<close>

datatype event =
    Ev_Capture
  | Ev_Session nat
  | Ev_Query nat
  | Ev_Connect
  | Ev_Request
  | Ev_Disconnect nat

fun step :: "('img, 'f) externals \<Rightarrow> ('img, 'f) sys \<Rightarrow> event \<Rightarrow> ('img, 'f) sys" where
  "step X s Ev_Capture = capture_step X s"
| "step X s (Ev_Session i) = session_step X i s"
| "step X s (Ev_Query j) = query_step X j s"
| "step X s Ev_Connect = s\<lparr>sessions := sessions s @ [\<lparr>spc = S_Check, out = []\<rparr>]\<rparr>"
| "step X s Ev_Request = s\<lparr>queries := queries s @ [Q_Acquire]\<rparr>"
| "step X s (Ev_Disconnect i) = disconnect i s"

definition run :: "('img, 'f) externals \<Rightarrow> event list \<Rightarrow> ('img, 'f) sys" where
  "run X evs = foldl (step X) init evs"


section \<open>pi_camera.py: the camera server\<close>

subsection \<open>External collaborators\<close>

text \<open>
  The camera library: the three set-up calls of \<^verbatim>\<open>capture_frames_continuously\<close>, each
  returning (\<open>None\<close>) or raising an exception whose text is given, and the JPEG frames the
  encoder hands to \<^verbatim>\<open>StreamingOutput.write\<close>, one per call, in order.
\<close>

record pi_externals =
  create_video_configuration :: "string option"
  configure :: "string option"
  start_recording :: "string option"
  encoded :: "nat \<Rightarrow> bytes"

subsection \<open>Threads and shared state\<close>

text \<open>
  \<^verbatim>\<open>output.frame\<close> is guarded by \<^verbatim>\<open>output.condition\<close>, the global
  \<^verbatim>\<open>latest_frame_buffer\<close> by \<^verbatim>\<open>frame_lock\<close>. The encoder thread of the camera library
  calls \<^verbatim>\<open>output.write(buf)\<close>; the capture thread waits on the condition, reads
  \<^verbatim>\<open>output.frame\<close> and stores it in the global; each session reads the global.
  \<^verbatim>\<open>condition.wait()\<close> releases the condition, sleeps until a \<^verbatim>\<open>notify_all\<close>, and takes
  the condition again before it returns.
\<close>

datatype ptid = PT_Capture | PT_Encoder | PT_Session nat

datatype pcap_pc =
    P_Start
  | P_AcqCond
  | P_Wait
  | P_Waiting
  | P_Notified
  | P_ReadOut
  | P_RelCond "bytes option"
  | P_AcqLock "bytes option"
  | P_Store "bytes option"
  | P_RelLock
  | P_Failed

datatype enc_pc = E_Idle | E_Acquire bytes | E_Set bytes | E_Notify | E_Release

datatype psess_pc =
    PS_Start
  | PS_Acquire
  | PS_Read
  | PS_Release "bytes option"
  | PS_Test "bytes option"
  | PS_Sleep
  | PS_Yield
  | PS_Pace
  | PS_Closed

record psess =
  ppc :: psess_pc
  pout :: "bytes list"

record pisys =
  output_frame :: "bytes option"
  condition :: "ptid option"
  latest_frame_buffer :: "bytes option"
  frame_lock :: "ptid option"
  recording :: bool
  nwrites :: nat
  encoder :: enc_pc
  pcap :: pcap_pc
  pstdout :: "string list"
  psessions :: "psess list"

definition pi_init :: pisys where
  "pi_init = \<lparr>output_frame = None, condition = None, latest_frame_buffer = None,
              frame_lock = None, recording = False, nwrites = 0, encoder = E_Idle,
              pcap = P_Start, pstdout = [], psessions = []\<rparr>"

text \<open>
  The set-up part of \<^verbatim>\<open>capture_frames_continuously\<close>, up to \<^verbatim>\<open>start_recording\<close>: the lines
  printed, and whether recording started. An exception is caught by the outer handler.
\<close>

definition pi_setup :: "pi_externals \<Rightarrow> string list \<times> bool" where
  "pi_setup X =
     (case create_video_configuration X of
        Some e \<Rightarrow>
          ([''Starting continuous frame capture thread...'',
            ''Error in capture thread setup: '' @ e], False)
      | None \<Rightarrow>
          (case configure X of
             Some e \<Rightarrow>
               ([''Starting continuous frame capture thread...'',
                 ''  Thread: Configuring camera...'',
                 ''Error in capture thread setup: '' @ e], False)
           | None \<Rightarrow>
               (case start_recording X of
                  Some e \<Rightarrow>
                    ([''Starting continuous frame capture thread...'',
                      ''  Thread: Configuring camera...'',
                      ''  Thread: Starting camera recording...'',
                      ''Error in capture thread setup: '' @ e], False)
                | None \<Rightarrow>
                    ([''Starting continuous frame capture thread...'',
                      ''  Thread: Configuring camera...'',
                      ''  Thread: Starting camera recording...''], True))))"

text \<open>
  The capture thread. No statement of its loop raises in this model, so the handlers
  around the loop are never entered.
\<close>

definition pi_capture_step :: "pi_externals \<Rightarrow> pisys \<Rightarrow> pisys" where
  "pi_capture_step X s =
     (case pcap s of
        P_Start \<Rightarrow>
          (case pi_setup X of (printed, started) \<Rightarrow>
             s\<lparr>pstdout := pstdout s @ printed, recording := started,
               pcap := (if started then P_AcqCond else P_Failed)\<rparr>)
      | P_AcqCond \<Rightarrow>
          (if condition s = None then s\<lparr>condition := Some PT_Capture, pcap := P_Wait\<rparr> else s)
      | P_Wait \<Rightarrow> s\<lparr>condition := None, pcap := P_Waiting\<rparr>
      | P_Waiting \<Rightarrow> s
      | P_Notified \<Rightarrow>
          (if condition s = None then s\<lparr>condition := Some PT_Capture, pcap := P_ReadOut\<rparr> else s)
      | P_ReadOut \<Rightarrow> s\<lparr>pcap := P_RelCond (output_frame s)\<rparr>
      | P_RelCond frame_data \<Rightarrow> s\<lparr>condition := None, pcap := P_AcqLock frame_data\<rparr>
      | P_AcqLock frame_data \<Rightarrow>
          (if frame_lock s = None
           then s\<lparr>frame_lock := Some PT_Capture, pcap := P_Store frame_data\<rparr> else s)
      | P_Store frame_data \<Rightarrow> s\<lparr>latest_frame_buffer := frame_data, pcap := P_RelLock\<rparr>
      | P_RelLock \<Rightarrow> s\<lparr>frame_lock := None, pcap := P_AcqCond\<rparr>
      | P_Failed \<Rightarrow> s)"

text \<open>
  The encoder thread: \<^verbatim>\<open>StreamingOutput.write(buf)\<close> for each encoded frame, once recording
  has started. \<^verbatim>\<open>notify_all\<close> wakes the capture thread if it is waiting.
\<close>

definition pi_encoder_step :: "pi_externals \<Rightarrow> pisys \<Rightarrow> pisys" where
  "pi_encoder_step X s =
     (case encoder s of
        E_Idle \<Rightarrow>
          (if recording s
           then s\<lparr>nwrites := Suc (nwrites s), encoder := E_Acquire (encoded X (nwrites s))\<rparr>
           else s)
      | E_Acquire buf \<Rightarrow>
          (if condition s = None then s\<lparr>condition := Some PT_Encoder, encoder := E_Set buf\<rparr> else s)
      | E_Set buf \<Rightarrow> s\<lparr>output_frame := Some buf, encoder := E_Notify\<rparr>
      | E_Notify \<Rightarrow>
          s\<lparr>pcap := (if pcap s = P_Waiting then P_Notified else pcap s), encoder := E_Release\<rparr>
      | E_Release \<Rightarrow> s\<lparr>condition := None, encoder := E_Idle\<rparr>)"

text \<open>
  \<^verbatim>\<open>generate_camera_stream\<close> for the session \<open>i\<close>. \<open>PS_Yield\<close> is the generator suspended
  at its \<^verbatim>\<open>yield\<close>; \<open>PS_Pace\<close> is the pacing sleep after it.
\<close>

definition set_psession :: "nat \<Rightarrow> psess \<Rightarrow> pisys \<Rightarrow> pisys" where
  "set_psession i ss s = s\<lparr>psessions := (psessions s)[i := ss]\<rparr>"

definition pi_session_step :: "nat \<Rightarrow> pisys \<Rightarrow> pisys" where
  "pi_session_step i s =
     (if i < length (psessions s) then
        (let ss = psessions s ! i in
         case ppc ss of
           PS_Start \<Rightarrow>
             set_psession i (ss\<lparr>ppc := PS_Acquire\<rparr>)
               (s\<lparr>pstdout := pstdout s @ [''Client connected to camera stream.'']\<rparr>)
         | PS_Acquire \<Rightarrow>
             (if frame_lock s = None
              then set_psession i (ss\<lparr>ppc := PS_Read\<rparr>) (s\<lparr>frame_lock := Some (PT_Session i)\<rparr>)
              else s)
         | PS_Read \<Rightarrow> set_psession i (ss\<lparr>ppc := PS_Release (latest_frame_buffer s)\<rparr>) s
         | PS_Release frame_to_send \<Rightarrow>
             set_psession i (ss\<lparr>ppc := PS_Test frame_to_send\<rparr>) (s\<lparr>frame_lock := None\<rparr>)
         | PS_Test frame_to_send \<Rightarrow>
             (case frame_to_send of
                None \<Rightarrow> set_psession i (ss\<lparr>ppc := PS_Sleep\<rparr>) s
              | Some f \<Rightarrow> set_psession i (ss\<lparr>ppc := PS_Yield, pout := pout ss @ [chunk f]\<rparr>) s)
         | PS_Sleep \<Rightarrow> set_psession i (ss\<lparr>ppc := PS_Acquire\<rparr>) s
         | PS_Yield \<Rightarrow> set_psession i (ss\<lparr>ppc := PS_Pace\<rparr>) s
         | PS_Pace \<Rightarrow> set_psession i (ss\<lparr>ppc := PS_Acquire\<rparr>) s
         | PS_Closed \<Rightarrow> s)
      else s)"

text \<open>The client goes away: \<^verbatim>\<open>GeneratorExit\<close> is raised at the \<^verbatim>\<open>yield\<close> and handled.\<close>

definition pi_disconnect :: "nat \<Rightarrow> pisys \<Rightarrow> pisys" where
  "pi_disconnect i s =
     (if i < length (psessions s) \<and> ppc (psessions s ! i) = PS_Yield
      then set_psession i ((psessions s ! i)\<lparr>ppc := PS_Closed\<rparr>)
             (s\<lparr>pstdout := pstdout s @ [''Client disconnected from camera stream.'']\<rparr>)
      else s)"

datatype pevent =
    PEv_Capture
  | PEv_Encoder
  | PEv_Session nat
  | PEv_Connect
  | PEv_Disconnect nat

fun pi_step :: "pi_externals \<Rightarrow> pisys \<Rightarrow> pevent \<Rightarrow> pisys" where
  "pi_step X s PEv_Capture = pi_capture_step X s"
| "pi_step X s PEv_Encoder = pi_encoder_step X s"
| "pi_step X s (PEv_Session i) = pi_session_step i s"
| "pi_step X s PEv_Connect = s\<lparr>psessions := psessions s @ [\<lparr>ppc = PS_Start, pout = []\<rparr>]\<rparr>"
| "pi_step X s (PEv_Disconnect i) = pi_disconnect i s"

definition pi_run :: "pi_externals \<Rightarrow> pevent list \<Rightarrow> pisys" where
  "pi_run X evs = foldl (pi_step X) pi_init evs"

section \<open>Notions used in the statements\<close>

subsection \<open>Publishes of the detection server\<close>

text \<open>
  The pair that iteration \<open>k\<close> of the capture loop stores under the lock, when the read
  and the processing of that iteration succeed: \<^verbatim>\<open>frame = img.copy()\<close> and
  \<^verbatim>\<open>detections = current_detections\<close>.
\<close>

definition published :: "('img, 'f) externals \<Rightarrow> nat \<Rightarrow> ('img \<times> 'f detection list) option" where
  "published X k =
     (case cap_read X k of
        None \<Rightarrow> None
      | Some img \<Rightarrow>
          (case process X img of
             Inl e \<Rightarrow> None
           | Inr (img', ds) \<Rightarrow> Some (copy img', ds)))"

text \<open>
  The number of publishes the capture thread has completed (lock released): every read
  so far when it stands at the top of the loop, every read but the last otherwise.
\<close>

definition completed :: "('img, 'f) sys \<Rightarrow> nat" where
  "completed s = (case cap s of C_Loop \<Rightarrow> nreads s | _ \<Rightarrow> nreads s - 1)"

text \<open>The program points inside a \<^verbatim>\<open>with lock:\<close> block.\<close>

fun cap_holds :: "('img, 'f) cap_pc \<Rightarrow> bool" where
  "cap_holds (C_WriteFrame img ds) = True"
| "cap_holds (C_WriteDets ds) = True"
| "cap_holds C_Release = True"
| "cap_holds _ = False"

fun sess_holds :: "'img sess_pc \<Rightarrow> bool" where
  "sess_holds S_Copy = True"
| "sess_holds (S_Release img) = True"
| "sess_holds _ = False"

fun qry_holds :: "qry_pc \<Rightarrow> bool" where
  "qry_holds Q_Dump = True"
| "qry_holds (Q_Release r) = True"
| "qry_holds _ = False"

definition lock_inv :: "('img, 'f) sys \<Rightarrow> bool" where
  "lock_inv s \<longleftrightarrow>
     (cap_holds (cap s) \<longrightarrow> lock s = Some T_Capture) \<and>
     (\<forall>i < length (sessions s). sess_holds (spc (sessions s ! i)) \<longrightarrow> lock s = Some (T_Session i)) \<and>
     (\<forall>j < length (queries s). qry_holds (queries s ! j) \<longrightarrow> lock s = Some (T_Query j))"

subsection \<open>A concrete environment\<close>

text \<open>
  A camera that delivers three images \<open>0\<close>, \<open>1\<close>, \<open>2\<close> and then fails to read; a detector
  that finds nothing in image \<open>0\<close>, raises on image \<open>1\<close> and finds one box in image \<open>2\<close>;
  rational numbers for floats.
\<close>

definition demo :: "(nat, rat) externals" where
  "demo = \<lparr>isOpened = True,
           cap_read = (\<lambda>k. if k < 3 then Some k else None),
           model_call = (\<lambda>img. if img = 1 then Inl (Exception ''RuntimeError'')
              else Inr \<lparr>boxes = (if img = 0 then [] else [\<lparr>xyxy = (1, 2, 3, 4), conf = 1 / 2, cls = 0\<rparr>]),
                       names = (\<lambda>c. if c = 0 then Some ''person'' else None)\<rparr>),
           rectangle = (\<lambda>img p q. Inr img),
           putText = (\<lambda>img l p. Inr img),
           imencode = (\<lambda>img. Inr (True, Ndarray ''jpeg'')),
           fadd = (\<lambda>a b. a + b), fsub = (\<lambda>a b. a - b), fdiv = (\<lambda>a b. a / b),
           float_of_int = of_int,
           py_int = (\<lambda>x. Inr \<lfloor>x\<rfloor>),
           format_2f = (\<lambda>x. ''0.50''),
           json_float = (\<lambda>x. ''0.5''),
           json_string = (\<lambda>s. [CHR 0x22] @ s @ [CHR 0x22])\<rparr>"



subsection \<open>The shared cell of the detection server\<close>

text \<open>
  The contents of the pair \<^verbatim>\<open>(frame, detections)\<close> after \<open>n\<close> completed publishes: the initial
  values, or the pair published by iteration \<open>n - 1\<close>. \<open>cell_inv\<close> relates the pair to the
  position of the capture thread: between two publishes it is the pair of the last one,
  and inside the \<^verbatim>\<open>with lock:\<close> block the frame is written first.
\<close>

definition cell :: "('img, 'f) externals \<Rightarrow> nat \<Rightarrow> ('img, 'f) sys \<Rightarrow> bool" where
  "cell X n s =
     (case n of
        0 \<Rightarrow> frame s = None \<and> detections s = []
      | Suc k \<Rightarrow> (\<exists>f. frame s = Some f \<and> published X k = Some (f, detections s)))"

definition cell_inv :: "('img, 'f) externals \<Rightarrow> ('img, 'f) sys \<Rightarrow> bool" where
  "cell_inv X s \<longleftrightarrow>
     (\<forall>k < completed s. published X k \<noteq> None) \<and>
     (case cap s of
        C_Start \<Rightarrow> nreads s = 0 \<and> cell X 0 s
      | C_Loop \<Rightarrow> cell X (nreads s) s
      | C_Acquire img ds \<Rightarrow>
          0 < nreads s \<and> published X (nreads s - 1) = Some (copy img, ds) \<and> cell X (nreads s - 1) s
      | C_WriteFrame img ds \<Rightarrow>
          0 < nreads s \<and> published X (nreads s - 1) = Some (copy img, ds) \<and> cell X (nreads s - 1) s
      | C_WriteDets ds \<Rightarrow>
          0 < nreads s \<and> (\<exists>f. frame s = Some f \<and> published X (nreads s - 1) = Some (f, ds))
      | C_Release \<Rightarrow> 0 < nreads s \<and> cell X (nreads s) s
      | C_Done \<Rightarrow> cell X (nreads s - 1) s
      | C_Crashed e \<Rightarrow> cell X (nreads s - 1) s)"

text \<open>
  What a reader holds while it is inside its \<^verbatim>\<open>with lock:\<close> block, after its read: the
  session the copy of the current \<^verbatim>\<open>frame\<close>, the request the encoding of the current
  \<^verbatim>\<open>detections\<close>.
\<close>

definition read_inv :: "('img, 'f) externals \<Rightarrow> ('img, 'f) sys \<Rightarrow> bool" where
  "read_inv X s \<longleftrightarrow>
     (\<forall>i < length (sessions s). \<forall>img. spc (sessions s ! i) = S_Release img \<longrightarrow>
          map_option copy (frame s) = Some img) \<and>
     (\<forall>j < length (queries s). \<forall>r. queries s ! j = Q_Release r \<longrightarrow>
          r = json_dumps X (detections s))"

subsection \<open>The frame is never absent again\<close>

text \<open>
  \<open>pcap_data\<close> is the local variable \<^verbatim>\<open>frame_data\<close> of the capture thread of \<^verbatim>\<open>pi_camera.py\<close>
  where it is defined. \<open>pi_inv\<close>: a notification follows a write of \<^verbatim>\<open>output.frame\<close>, so the
  capture thread is woken, reads and stores only in the presence of a frame. \<open>wait_inv\<close>:
  a session of \<^verbatim>\<open>main.py\<close> that has left its test of \<^verbatim>\<open>frame is None\<close> finds a frame.
\<close>

fun pcap_data :: "pcap_pc \<Rightarrow> bytes option option" where
  "pcap_data (P_RelCond frame_data) = Some frame_data"
| "pcap_data (P_AcqLock frame_data) = Some frame_data"
| "pcap_data (P_Store frame_data) = Some frame_data"
| "pcap_data _ = None"

definition pi_inv :: "pisys \<Rightarrow> bool" where
  "pi_inv s \<longleftrightarrow>
     (encoder s = E_Notify \<longrightarrow> output_frame s \<noteq> None) \<and>
     (pcap s = P_Notified \<or> pcap s = P_ReadOut \<longrightarrow> output_frame s \<noteq> None) \<and>
     pcap_data (pcap s) \<noteq> Some None"

definition wait_inv :: "('img, 'f) sys \<Rightarrow> bool" where
  "wait_inv s \<longleftrightarrow>
     (\<forall>i < length (sessions s).
        spc (sessions s ! i) = S_Acquire \<or> spc (sessions s ! i) = S_Copy \<longrightarrow> frame s \<noteq> None)"

text \<open>A camera of \<^verbatim>\<open>pi_camera.py\<close> whose set-up succeeds and whose \<open>k\<close>-th frame is distinct.\<close>

definition pi_demo :: pi_externals where
  "pi_demo = \<lparr>create_video_configuration = None, configure = None, start_recording = None,
              encoded = (\<lambda>k. ''jpeg'' @ replicate k (CHR ''+''))\<rparr>"

subsection \<open>What a session emits, what a request returns\<close>

text \<open>
  \<open>copied X k\<close> is the image a session holds after \<^verbatim>\<open>img = frame.copy()\<close> when \<^verbatim>\<open>frame\<close> is
  the frame of publish \<open>k\<close>, and \<open>emitted_chunk X k\<close> the chunk it then yields, if the
  encoding succeeds. \<open>sess_ok X n ss ks\<close>: the session \<open>ss\<close> has read the frames of the
  publishes \<open>ks\<close>, in this order, all among the first \<open>n\<close>, and has emitted their chunks;
  the last one is still to be encoded when the session stands before the encoding.
\<close>

definition copied :: "('img, 'f) externals \<Rightarrow> nat \<Rightarrow> 'img option" where
  "copied X k = (case published X k of None \<Rightarrow> None | Some (f, ds) \<Rightarrow> Some (copy f))"

definition emitted_chunk :: "('img, 'f) externals \<Rightarrow> nat \<Rightarrow> bytes option" where
  "emitted_chunk X k =
     (case copied X k of
        None \<Rightarrow> None
      | Some img \<Rightarrow>
          (case imencode X img of
             Inl e \<Rightarrow> None
           | Inr (ok, buffer) \<Rightarrow>
               (case tobytes buffer of Inl e \<Rightarrow> None | Inr jpg_bytes \<Rightarrow> Some (chunk jpg_bytes))))"

fun pending :: "'img sess_pc \<Rightarrow> 'img option" where
  "pending (S_Release img) = Some img"
| "pending (S_Encode img) = Some img"
| "pending _ = None"

definition sess_ok :: "('img, 'f) externals \<Rightarrow> nat \<Rightarrow> 'img sess \<Rightarrow> nat list \<Rightarrow> bool" where
  "sess_ok X n ss ks \<longleftrightarrow>
     sorted ks \<and> (\<forall>k \<in> set ks. k < n) \<and>
     (case pending (spc ss) of
        None \<Rightarrow> map Some (out ss) = map (emitted_chunk X) ks
      | Some img \<Rightarrow>
          ks \<noteq> [] \<and> copied X (last ks) = Some img \<and>
          map Some (out ss) = map (emitted_chunk X) (butlast ks))"

definition sess_inv :: "('img, 'f) externals \<Rightarrow> ('img, 'f) sys \<Rightarrow> bool" where
  "sess_inv X s \<longleftrightarrow> (\<forall>i < length (sessions s). \<exists>ks. sess_ok X (completed s) (sessions s ! i) ks)"

text \<open>
  \<open>served X n r\<close>: the response \<open>r\<close> is the encoding of the initial, empty list of
  detections or of the detections of one of the first \<open>n\<close> publishes.
\<close>

fun response :: "qry_pc \<Rightarrow> string option" where
  "response (Q_Release r) = Some r"
| "response (Q_Done r) = Some r"
| "response _ = None"

definition served :: "('img, 'f) externals \<Rightarrow> nat \<Rightarrow> string \<Rightarrow> bool" where
  "served X n r \<longleftrightarrow>
     (n = 0 \<and> r = json_dumps X []) \<or>
     (\<exists>k < n. case published X k of None \<Rightarrow> False | Some (f, ds) \<Rightarrow> r = json_dumps X ds)"

definition qry_inv :: "('img, 'f) externals \<Rightarrow> ('img, 'f) sys \<Rightarrow> bool" where
  "qry_inv X s \<longleftrightarrow>
     (\<forall>j < length (queries s). \<forall>r. response (queries s ! j) = Some r \<longrightarrow>
        (\<exists>n \<le> completed s. served X n r))"

subsection \<open>Publishes of the camera server\<close>

text \<open>
  The values the capture thread of \<^verbatim>\<open>pi_camera.py\<close> stores in \<^verbatim>\<open>latest_frame_buffer\<close> along a
  run, in the order of the stores: \<open>pi_store_of s e\<close> is the value stored by the event \<open>e\<close>
  in the state \<open>s\<close>, if it is the statement \<^verbatim>\<open>latest_frame_buffer = frame_data\<close>.
\<close>

definition pi_store_of :: "pisys \<Rightarrow> pevent \<Rightarrow> bytes option list" where
  "pi_store_of s e =
     (case e of
        PEv_Capture \<Rightarrow> (case pcap s of P_Store frame_data \<Rightarrow> [frame_data] | _ \<Rightarrow> [])
      | _ \<Rightarrow> [])"

fun pi_stores_from :: "pi_externals \<Rightarrow> pisys \<Rightarrow> pevent list \<Rightarrow> bytes option list" where
  "pi_stores_from X s [] = []"
| "pi_stores_from X s (e # es) = pi_store_of s e @ pi_stores_from X (pi_step X s e) es"

definition pi_published :: "pi_externals \<Rightarrow> pevent list \<Rightarrow> bytes option list" where
  "pi_published X evs = pi_stores_from X pi_init evs"

text \<open>The chunk a session yields for the \<open>k\<close>-th stored value \<open>fs ! k\<close>.\<close>

definition pi_chunk :: "bytes option list \<Rightarrow> nat \<Rightarrow> bytes option" where
  "pi_chunk fs k = (case fs ! k of None \<Rightarrow> None | Some f \<Rightarrow> Some (chunk f))"

text \<open>The local variable \<^verbatim>\<open>frame_to_send\<close> of a session, where it holds a frame.\<close>

fun ppending :: "psess_pc \<Rightarrow> bytes option" where
  "ppending (PS_Release frame_to_send) = frame_to_send"
| "ppending (PS_Test frame_to_send) = frame_to_send"
| "ppending _ = None"

definition psess_ok :: "bytes option list \<Rightarrow> psess \<Rightarrow> nat list \<Rightarrow> bool" where
  "psess_ok fs ss ks \<longleftrightarrow>
     sorted ks \<and> (\<forall>k \<in> set ks. k < length fs) \<and>
     (case ppending (ppc ss) of
        None \<Rightarrow> map Some (pout ss) = map (pi_chunk fs) ks
      | Some f \<Rightarrow>
          ks \<noteq> [] \<and> fs ! last ks = Some f \<and>
          map Some (pout ss) = map (pi_chunk fs) (butlast ks))"

definition hist_inv :: "pisys \<Rightarrow> bytes option list \<Rightarrow> bool" where
  "hist_inv s fs \<longleftrightarrow>
     latest_frame_buffer s = (if fs = [] then None else last fs) \<and>
     (\<forall>i < length (psessions s). \<exists>ks. psess_ok fs (psessions s ! i) ks)"

subsection \<open>Where the bytes of the camera server come from\<close>

text \<open>
  \<open>enc_data\<close> is the argument \<^verbatim>\<open>buf\<close> of \<^verbatim>\<open>StreamingOutput.write\<close> while the call runs.
  \<open>pi_prov\<close>: every frame held in a shared or local variable of \<^verbatim>\<open>pi_camera.py\<close>, and the
  payload of every chunk emitted, is one of the frames the encoder has written so far.
\<close>

fun enc_data :: "enc_pc \<Rightarrow> bytes option" where
  "enc_data (E_Acquire buf) = Some buf"
| "enc_data (E_Set buf) = Some buf"
| "enc_data _ = None"

definition from_encoder :: "pi_externals \<Rightarrow> nat \<Rightarrow> bytes \<Rightarrow> bool" where
  "from_encoder X n b \<longleftrightarrow> (\<exists>k < n. b = encoded X k)"

definition pi_prov :: "pi_externals \<Rightarrow> pisys \<Rightarrow> bool" where
  "pi_prov X s \<longleftrightarrow>
     (\<forall>b. output_frame s = Some b \<longrightarrow> from_encoder X (nwrites s) b) \<and>
     (\<forall>b. latest_frame_buffer s = Some b \<longrightarrow> from_encoder X (nwrites s) b) \<and>
     (\<forall>b. pcap_data (pcap s) = Some (Some b) \<longrightarrow> from_encoder X (nwrites s) b) \<and>
     (\<forall>b. enc_data (encoder s) = Some b \<longrightarrow> from_encoder X (nwrites s) b) \<and>
     (\<forall>i < length (psessions s).
        (\<forall>b. ppending (ppc (psessions s ! i)) = Some b \<longrightarrow> from_encoder X (nwrites s) b) \<and>
        (\<forall>c \<in> set (pout (psessions s ! i)). \<exists>b. from_encoder X (nwrites s) b \<and> c = chunk b))"

subsection \<open>Sessions that have not yet seen a frame\<close>

text \<open>
  \<open>idle\<close>: the session is in its loop of testing \<^verbatim>\<open>frame is None\<close> and sleeping, or has
  seen a frame and waits for the lock. \<open>idle_inv\<close>: a session is past that point only after
  a publish has completed.
\<close>

fun idle :: "'img sess_pc \<Rightarrow> bool" where
  "idle S_Check = True"
| "idle S_Sleep = True"
| "idle S_Acquire = True"
| "idle _ = False"

definition idle_inv :: "('img, 'f) sys \<Rightarrow> bool" where
  "idle_inv s \<longleftrightarrow> (\<forall>i < length (sessions s). \<not> idle (spc (sessions s ! i)) \<longrightarrow> 0 < completed s)"

text \<open>The states of \<^verbatim>\<open>main.py\<close> when the camera cannot be opened.\<close>

definition closed_inv :: "('img, 'f) sys \<Rightarrow> bool" where
  "closed_inv s \<longleftrightarrow>
     (cap s = C_Start \<and> stdout s = [] \<or> cap s = C_Done \<and> stdout s = [''Error: Could not open camera.''])
     \<and> nreads s = 0 \<and> frame s = None \<and> detections s = [] \<and> lock s \<noteq> Some T_Capture"

text \<open>The environment \<open>demo\<close> with a camera that cannot be opened.\<close>

definition demo_no_camera :: "(nat, rat) externals" where
  "demo_no_camera = demo\<lparr>isOpened := False\<rparr>"

section \<open>Proofs\<close>

lemmas step_defs = capture_step_def session_step_def query_step_def disconnect_def set_session_def
  process_def copy_def json_dumps_def Let_def

subsection \<open>The lock is held by at most one thread\<close>

lemma lock_inv_init: "lock_inv init"
  by (simp add: lock_inv_def init_def)

lemma lock_inv_capture: "lock_inv s \<Longrightarrow> lock_inv (capture_step X s)"
  unfolding lock_inv_def capture_step_def
  by (cases "cap s") (auto split: option.splits sum.splits)

lemma lock_inv_session: "lock_inv s \<Longrightarrow> lock_inv (session_step X i s)"
  unfolding lock_inv_def session_step_def set_session_def Let_def
  by (cases "spc (sessions s ! i)")
     (auto simp: nth_list_update split: option.splits sum.splits;
      metis sess_holds.simps(1) sess_holds.simps(2) option.inject tid.inject(1))+

lemma lock_inv_query: "lock_inv s \<Longrightarrow> lock_inv (query_step X j s)"
  unfolding lock_inv_def query_step_def
  by (cases "queries s ! j")
     (auto simp: nth_list_update; metis qry_holds.simps(1) qry_holds.simps(2) option.inject tid.inject(2))+

lemma lock_inv_disconnect: "lock_inv s \<Longrightarrow> lock_inv (disconnect i s)"
  unfolding lock_inv_def disconnect_def set_session_def
  by (auto simp: nth_list_update)

lemma lock_inv_step: "lock_inv s \<Longrightarrow> lock_inv (step X s e)"
proof (cases e)
  case Ev_Connect
  assume "lock_inv s"
  then show ?thesis using Ev_Connect
    by (auto simp: lock_inv_def nth_append)
next
  case Ev_Request
  assume "lock_inv s"
  then show ?thesis using Ev_Request
    by (auto simp: lock_inv_def nth_append)
qed (simp_all add: lock_inv_capture lock_inv_session lock_inv_query lock_inv_disconnect)

subsection \<open>The shared cell holds the last completed publish\<close>

lemma session_step_fields [simp]:
  "frame (session_step X i s) = frame s"
  "detections (session_step X i s) = detections s"
  "cap (session_step X i s) = cap s"
  "nreads (session_step X i s) = nreads s"
  "queries (session_step X i s) = queries s"
  "stdout (session_step X i s) = stdout s"
  "length (sessions (session_step X i s)) = length (sessions s)"
  by (cases "spc (sessions s ! i)";
      simp add: session_step_def set_session_def Let_def split: option.splits sum.splits)+

lemma query_step_fields [simp]:
  "frame (query_step X j s) = frame s"
  "detections (query_step X j s) = detections s"
  "cap (query_step X j s) = cap s"
  "nreads (query_step X j s) = nreads s"
  "sessions (query_step X j s) = sessions s"
  "stdout (query_step X j s) = stdout s"
  "length (queries (query_step X j s)) = length (queries s)"
  by (cases "queries s ! j"; simp add: query_step_def)+

lemma disconnect_fields [simp]:
  "frame (disconnect i s) = frame s"
  "detections (disconnect i s) = detections s"
  "cap (disconnect i s) = cap s"
  "nreads (disconnect i s) = nreads s"
  "queries (disconnect i s) = queries s"
  "lock (disconnect i s) = lock s"
  "stdout (disconnect i s) = stdout s"
  "length (sessions (disconnect i s)) = length (sessions s)"
  by (simp_all add: disconnect_def set_session_def)

lemma capture_step_fields [simp]:
  "sessions (capture_step X s) = sessions s"
  "queries (capture_step X s) = queries s"
  by (cases "cap s"; simp add: capture_step_def split: option.splits sum.splits)+

lemma completed_reader [simp]:
  "completed (session_step X i s) = completed s"
  "completed (query_step X j s) = completed s"
  "completed (disconnect i s) = completed s"
  by (simp_all add: completed_def split: cap_pc.splits)

lemma cell_cong:
  "frame t = frame s \<Longrightarrow> detections t = detections s \<Longrightarrow> cell X n t = cell X n s"
  by (simp add: cell_def split: nat.splits)

lemma cell_inv_cong:
  assumes "frame t = frame s" "detections t = detections s" "cap t = cap s" "nreads t = nreads s"
  shows "cell_inv X t = cell_inv X s"
  using assms by (simp add: cell_inv_def completed_def cell_cong [of t s] split: cap_pc.splits)

lemma cell_inv_init: "cell_inv X init"
  by (simp add: cell_inv_def init_def completed_def cell_def)

lemma published_read:
  "cap_read X k = Some img \<Longrightarrow> process X img = Inr (img', ds) \<Longrightarrow> published X k = Some (copy img', ds)"
  by (simp add: published_def)

lemma cell_upd [simp]:
  "cell X n (s\<lparr>lock := l\<rparr>) = cell X n s"
  "cell X n (s\<lparr>cap := c\<rparr>) = cell X n s"
  "cell X n (s\<lparr>nreads := m\<rparr>) = cell X n s"
  "cell X n (s\<lparr>stdout := p\<rparr>) = cell X n s"
  "cell X n (s\<lparr>sessions := ss\<rparr>) = cell X n s"
  "cell X n (s\<lparr>queries := qs\<rparr>) = cell X n s"
  by (rule cell_cong; simp)+

lemma cell_inv_capture:
  assumes "cell_inv X s"
  shows "cell_inv X (capture_step X s)"
proof (cases "cap s")
  case C_Start
  with assms show ?thesis
    by (simp add: cell_inv_def capture_step_def completed_def)
next
  case C_Loop
  with assms show ?thesis
    by (auto simp: cell_inv_def capture_step_def completed_def published_read
        split: option.splits sum.splits)
next
  case (C_Acquire img ds)
  with assms show ?thesis
    by (simp add: cell_inv_def capture_step_def completed_def)
next
  case (C_WriteFrame img ds)
  with assms show ?thesis
    by (simp add: cell_inv_def capture_step_def completed_def)
next
  case (C_WriteDets ds)
  with assms show ?thesis
    by (cases "nreads s") (auto simp: cell_inv_def capture_step_def completed_def cell_def)
next
  case C_Release
  with assms show ?thesis
    by (cases "nreads s") (auto simp: cell_inv_def capture_step_def completed_def cell_def less_Suc_eq)
next
  case C_Done
  with assms show ?thesis by (simp add: capture_step_def)
next
  case (C_Crashed e)
  with assms show ?thesis by (simp add: capture_step_def)
qed

lemma cell_inv_step:
  assumes "cell_inv X s"
  shows "cell_inv X (step X s e)"
proof (cases e)
  case Ev_Capture
  then show ?thesis using assms by (simp add: cell_inv_capture)
next
  case (Ev_Session i)
  have "cell_inv X (session_step X i s) = cell_inv X s" by (rule cell_inv_cong) simp_all
  with assms Ev_Session show ?thesis by simp
next
  case (Ev_Query j)
  have "cell_inv X (query_step X j s) = cell_inv X s" by (rule cell_inv_cong) simp_all
  with assms Ev_Query show ?thesis by simp
next
  case Ev_Connect
  have "cell_inv X (step X s Ev_Connect) = cell_inv X s" by (rule cell_inv_cong) simp_all
  with assms Ev_Connect show ?thesis by simp
next
  case Ev_Request
  have "cell_inv X (step X s Ev_Request) = cell_inv X s" by (rule cell_inv_cong) simp_all
  with assms Ev_Request show ?thesis by simp
next
  case (Ev_Disconnect i)
  have "cell_inv X (disconnect i s) = cell_inv X s" by (rule cell_inv_cong) simp_all
  with assms Ev_Disconnect show ?thesis by simp
qed

lemma cell_when_free:
  "cell_inv X s \<Longrightarrow> \<not> cap_holds (cap s) \<Longrightarrow> cell X (completed s) s"
  by (cases "cap s") (simp_all add: cell_inv_def completed_def)

lemma completed_mono: "completed s \<le> completed (capture_step X s)"
  by (cases "cap s") (simp_all add: completed_def capture_step_def split: option.splits sum.splits)

subsection \<open>Reachable states\<close>

lemma run_snoc: "run X (evs @ [e]) = step X (run X evs) e"
  by (simp add: run_def)

lemma run_append: "run X (evs @ evs') = foldl (step X) (run X evs) evs'"
  by (simp add: run_def)

lemma lock_inv_run: "lock_inv (run X evs)"
  by (induction evs rule: rev_induct) (simp_all add: run_def lock_inv_init lock_inv_step)

lemma cell_inv_run: "cell_inv X (run X evs)"
  by (induction evs rule: rev_induct) (simp_all add: run_def cell_inv_init cell_inv_step)

lemma read_inv_init: "read_inv X init"
  by (simp add: read_inv_def init_def)

lemma read_inv_capture:
  assumes "lock_inv s" and "read_inv X s"
  shows "read_inv X (capture_step X s)"
proof (cases "cap s")
  case (C_WriteFrame img ds)
  with assms(1) have l: "lock s = Some T_Capture" by (simp add: lock_inv_def)
  with assms(1) have "\<forall>i < length (sessions s). \<not> sess_holds (spc (sessions s ! i))"
    and "\<forall>j < length (queries s). \<not> qry_holds (queries s ! j)"
    by (auto simp: lock_inv_def)
  then show ?thesis using C_WriteFrame
    by (auto simp: read_inv_def capture_step_def)
next
  case (C_WriteDets ds)
  with assms(1) have l: "lock s = Some T_Capture" by (simp add: lock_inv_def)
  with assms(1) have "\<forall>i < length (sessions s). \<not> sess_holds (spc (sessions s ! i))"
    and "\<forall>j < length (queries s). \<not> qry_holds (queries s ! j)"
    by (auto simp: lock_inv_def)
  then show ?thesis using C_WriteDets
    by (auto simp: read_inv_def capture_step_def)
qed (use assms(2) in \<open>auto simp: read_inv_def capture_step_def split: option.splits sum.splits\<close>)

lemma read_inv_session:
  assumes "read_inv X s"
  shows "read_inv X (session_step X i s)"
  using assms unfolding read_inv_def
  by (cases "spc (sessions s ! i)")
     (auto simp: session_step_def set_session_def Let_def nth_list_update
           split: option.splits sum.splits)

lemma read_inv_query:
  assumes "read_inv X s"
  shows "read_inv X (query_step X j s)"
proof (cases "j < length (queries s)")
  case True
  show ?thesis
  proof (cases "queries s ! j")
    case Q_Acquire
    with assms True show ?thesis
      by (simp add: read_inv_def query_step_def nth_list_update)
  next
    case Q_Dump
    with assms True show ?thesis
      by (simp add: read_inv_def query_step_def nth_list_update)
  next
    case (Q_Release x)
    with assms True show ?thesis
      by (simp add: read_inv_def query_step_def nth_list_update) metis
  next
    case (Q_Done x)
    with assms True show ?thesis
      by (simp add: query_step_def)
  qed
next
  case False
  with assms show ?thesis by (simp add: query_step_def)
qed

lemma read_inv_step:
  assumes "lock_inv s" and "read_inv X s"
  shows "read_inv X (step X s e)"
proof (cases e)
  case Ev_Capture
  then show ?thesis using assms by (simp add: read_inv_capture)
next
  case (Ev_Session i)
  then show ?thesis using assms by (simp add: read_inv_session)
next
  case (Ev_Query j)
  then show ?thesis using assms by (simp add: read_inv_query)
next
  case Ev_Connect
  then show ?thesis using assms(2) by (auto simp: read_inv_def nth_append)
next
  case Ev_Request
  then show ?thesis using assms(2) by (auto simp: read_inv_def nth_append)
next
  case (Ev_Disconnect i)
  then show ?thesis using assms(2)
    by (auto simp: read_inv_def disconnect_def set_session_def nth_list_update)
qed

lemma read_inv_run: "read_inv X (run X evs)"
proof (induction evs rule: rev_induct)
  case Nil
  then show ?case by (simp add: run_def read_inv_init)
next
  case (snoc e evs)
  then show ?case by (simp add: run_snoc read_inv_step lock_inv_run)
qed

lemma demo_first_publish:
  "run demo (replicate 6 Ev_Capture) =
     \<lparr>frame = Some 0, detections = [], lock = None, nreads = 1, cap = C_Loop,
      stdout = [], sessions = [], queries = []\<rparr>"
  by (simp add: run_def demo_def init_def step_defs numeral_eq_Suc)

lemma demo_published_0: "published demo 0 = Some (0, [])"
  by (simp add: published_def demo_def process_def copy_def)

lemma demo_session_reads:
  "run demo (replicate 6 Ev_Capture @ Ev_Connect # replicate 3 (Ev_Session 0)) =
     \<lparr>frame = Some 0, detections = [], lock = Some (T_Session 0), nreads = 1, cap = C_Loop,
      stdout = [], sessions = [\<lparr>spc = S_Release 0, out = []\<rparr>], queries = []\<rparr>"
  by (simp add: run_append demo_first_publish)
     (simp add: demo_def step_defs numeral_eq_Suc)

lemma demo_query_reads:
  "run demo (replicate 6 Ev_Capture @ Ev_Request # replicate 2 (Ev_Query 0)) =
     \<lparr>frame = Some 0, detections = [], lock = Some (T_Query 0), nreads = 1, cap = C_Loop,
      stdout = [], sessions = [], queries = [Q_Release ''[]'']\<rparr>"
  by (simp add: run_append demo_first_publish)
     (simp add: demo_def step_defs numeral_eq_Suc)

subsection \<open>Stability of the stored frame\<close>

lemma frame_stable_step: "frame s \<noteq> None \<Longrightarrow> frame (step X s e) \<noteq> None"
proof (cases e)
  case Ev_Capture
  assume "frame s \<noteq> None"
  then show ?thesis using Ev_Capture
    by (cases "cap s") (auto simp: capture_step_def split: option.splits sum.splits)
qed simp_all

lemma frame_stable: "frame s \<noteq> None \<Longrightarrow> frame (foldl (step X) s evs) \<noteq> None"
proof (induction evs arbitrary: s)
  case Nil
  then show ?case by simp
next
  case (Cons e evs)
  from Cons.prems have "frame (step X s e) \<noteq> None" by (rule frame_stable_step)
  then have "frame (foldl (step X) (step X s e) evs) \<noteq> None" by (rule Cons.IH)
  then show ?case by simp
qed

lemma frame_present: "cell_inv X s \<Longrightarrow> 0 < completed s \<Longrightarrow> frame s \<noteq> None"
  by (cases "cap s") (auto simp: cell_inv_def completed_def cell_def split: nat.splits)

lemma wait_inv_step: "wait_inv s \<Longrightarrow> wait_inv (step X s e)"
proof (cases e)
  case Ev_Capture
  assume "wait_inv s"
  then show ?thesis using Ev_Capture frame_stable_step [of s X Ev_Capture]
    by (auto simp: wait_inv_def)
next
  case (Ev_Session i)
  assume "wait_inv s"
  then show ?thesis using Ev_Session
    by (cases "spc (sessions s ! i)")
       (auto simp: wait_inv_def session_step_def set_session_def Let_def nth_list_update
             split: option.splits sum.splits)
next
  case (Ev_Query j)
  assume "wait_inv s"
  then show ?thesis using Ev_Query by (auto simp: wait_inv_def)
next
  case Ev_Connect
  assume "wait_inv s"
  then show ?thesis using Ev_Connect by (auto simp: wait_inv_def nth_append)
next
  case Ev_Request
  assume "wait_inv s"
  then show ?thesis using Ev_Request by (auto simp: wait_inv_def)
next
  case (Ev_Disconnect i)
  assume "wait_inv s"
  then show ?thesis using Ev_Disconnect
    by (auto simp: wait_inv_def disconnect_def set_session_def nth_list_update)
qed

lemma wait_inv_run: "wait_inv (run X evs)"
proof (induction evs rule: rev_induct)
  case Nil
  show ?case by (simp add: run_def wait_inv_def init_def)
next
  case (snoc e evs)
  then have "wait_inv (step X (run X evs) e)" by (rule wait_inv_step)
  then show ?case by (simp only: run_snoc)
qed

lemma pi_inv_init: "pi_inv pi_init"
  by (simp add: pi_inv_def pi_init_def)

lemma pi_inv_capture: "pi_inv s \<Longrightarrow> pi_inv (pi_capture_step X s)"
  by (cases "pcap s") (auto simp: pi_inv_def pi_capture_step_def split: prod.splits)

lemma pi_inv_encoder: "pi_inv s \<Longrightarrow> pi_inv (pi_encoder_step X s)"
  by (cases "encoder s"; cases "pcap s") (auto simp: pi_inv_def pi_encoder_step_def)

lemma pi_session_step_fields [simp]:
  "output_frame (pi_session_step i s) = output_frame s"
  "latest_frame_buffer (pi_session_step i s) = latest_frame_buffer s"
  "condition (pi_session_step i s) = condition s"
  "recording (pi_session_step i s) = recording s"
  "nwrites (pi_session_step i s) = nwrites s"
  "encoder (pi_session_step i s) = encoder s"
  "pcap (pi_session_step i s) = pcap s"
  "length (psessions (pi_session_step i s)) = length (psessions s)"
  by (cases "ppc (psessions s ! i)";
      simp add: pi_session_step_def set_psession_def Let_def split: option.splits)+

lemma pi_disconnect_fields [simp]:
  "output_frame (pi_disconnect i s) = output_frame s"
  "latest_frame_buffer (pi_disconnect i s) = latest_frame_buffer s"
  "condition (pi_disconnect i s) = condition s"
  "frame_lock (pi_disconnect i s) = frame_lock s"
  "recording (pi_disconnect i s) = recording s"
  "nwrites (pi_disconnect i s) = nwrites s"
  "encoder (pi_disconnect i s) = encoder s"
  "pcap (pi_disconnect i s) = pcap s"
  "length (psessions (pi_disconnect i s)) = length (psessions s)"
  by (simp_all add: pi_disconnect_def set_psession_def)

lemma pi_inv_step: "pi_inv s \<Longrightarrow> pi_inv (pi_step X s e)"
  by (cases e) (simp_all add: pi_inv_capture pi_inv_encoder, simp_all add: pi_inv_def)

lemma pi_run_snoc: "pi_run X (evs @ [e]) = pi_step X (pi_run X evs) e"
  by (simp add: pi_run_def)

lemma pi_inv_run: "pi_inv (pi_run X evs)"
proof (induction evs rule: rev_induct)
  case Nil
  show ?case by (simp add: pi_run_def pi_inv_init)
next
  case (snoc e evs)
  then have "pi_inv (pi_step X (pi_run X evs) e)" by (rule pi_inv_step)
  then show ?case by (simp only: pi_run_snoc)
qed

lemma latest_stable_step:
  "pi_inv s \<Longrightarrow> latest_frame_buffer s \<noteq> None \<Longrightarrow> latest_frame_buffer (pi_step X s e) \<noteq> None"
proof (cases e)
  case PEv_Capture
  assume "pi_inv s" "latest_frame_buffer s \<noteq> None"
  then show ?thesis using PEv_Capture
    by (cases "pcap s") (auto simp: pi_inv_def pi_capture_step_def split: prod.splits)
next
  case PEv_Encoder
  assume "pi_inv s" "latest_frame_buffer s \<noteq> None"
  then show ?thesis using PEv_Encoder
    by (cases "encoder s") (auto simp: pi_encoder_step_def)
qed simp_all

lemma latest_stable:
  "pi_inv s \<Longrightarrow> latest_frame_buffer s \<noteq> None
     \<Longrightarrow> latest_frame_buffer (foldl (pi_step X) s evs) \<noteq> None"
proof (induction evs arbitrary: s)
  case Nil
  then show ?case by simp
next
  case (Cons e evs)
  from Cons.prems have a: "pi_inv (pi_step X s e)" by (simp add: pi_inv_step)
  from Cons.prems have b: "latest_frame_buffer (pi_step X s e) \<noteq> None"
    by (rule latest_stable_step)
  from Cons.IH [OF a b] show ?case by simp
qed

lemmas pi_step_defs = pi_capture_step_def pi_encoder_step_def pi_session_step_def pi_disconnect_def
  set_psession_def pi_setup_def Let_def

lemma pi_demo_before_store:
  "pi_run pi_demo (replicate 3 PEv_Capture @ replicate 5 PEv_Encoder @ replicate 4 PEv_Capture) =
     \<lparr>output_frame = Some ''jpeg'', condition = None, latest_frame_buffer = None,
      frame_lock = Some PT_Capture, recording = True, nwrites = 1, encoder = E_Idle,
      pcap = P_Store (Some ''jpeg''),
      pstdout = [''Starting continuous frame capture thread...'',
                 ''  Thread: Configuring camera...'',
                 ''  Thread: Starting camera recording...''], psessions = []\<rparr>"
  by (simp add: pi_run_def pi_demo_def pi_init_def pi_step_defs numeral_eq_Suc)

lemma pi_run_append: "pi_run X (evs @ evs') = foldl (pi_step X) (pi_run X evs) evs'"
  by (simp add: pi_run_def)

lemma pi_demo_first_store:
  "pi_run pi_demo (replicate 3 PEv_Capture @ replicate 5 PEv_Encoder @ replicate 5 PEv_Capture) =
     \<lparr>output_frame = Some ''jpeg'', condition = None, latest_frame_buffer = Some ''jpeg'',
      frame_lock = Some PT_Capture, recording = True, nwrites = 1, encoder = E_Idle,
      pcap = P_RelLock,
      pstdout = [''Starting continuous frame capture thread...'',
                 ''  Thread: Configuring camera...'',
                 ''  Thread: Starting camera recording...''], psessions = []\<rparr>"
  by (simp add: pi_run_def pi_demo_def pi_init_def pi_step_defs numeral_eq_Suc)

lemma demo_session_copy:
  "run demo (replicate 6 Ev_Capture @ Ev_Connect # replicate 2 (Ev_Session 0)) =
     \<lparr>frame = Some 0, detections = [], lock = Some (T_Session 0), nreads = 1, cap = C_Loop,
      stdout = [], sessions = [\<lparr>spc = S_Copy, out = []\<rparr>], queries = []\<rparr>"
  by (simp add: run_append demo_first_publish)
     (simp add: demo_def step_defs numeral_eq_Suc)

subsection \<open>Sessions emit published frames in order; requests return published detections\<close>

lemma completed_upd [simp]:
  "completed (s\<lparr>lock := l\<rparr>) = completed s"
  "completed (s\<lparr>frame := f\<rparr>) = completed s"
  "completed (s\<lparr>detections := d\<rparr>) = completed s"
  "completed (s\<lparr>stdout := p\<rparr>) = completed s"
  "completed (s\<lparr>sessions := ss\<rparr>) = completed s"
  "completed (s\<lparr>queries := qs\<rparr>) = completed s"
  by (simp_all add: completed_def split: cap_pc.splits)

lemma completed_mono_step: "completed s \<le> completed (step X s e)"
  by (cases e) (simp_all add: completed_mono)

lemma sess_ok_mono: "sess_ok X n ss ks \<Longrightarrow> n \<le> m \<Longrightarrow> sess_ok X m ss ks"
  by (auto simp: sess_ok_def)

lemma sess_ok_pc:
  "pending pc = None \<Longrightarrow> pending (spc ss) = None \<Longrightarrow> sess_ok X n ss ks
     \<Longrightarrow> sess_ok X n (ss\<lparr>spc := pc\<rparr>) ks"
  by (simp add: sess_ok_def)

lemma sess_ok_copy:
  assumes ok: "sess_ok X (Suc k) ss ks" and p: "pending (spc ss) = None"
    and c: "published X k = Some (f, ds)"
  shows "sess_ok X (Suc k) (ss\<lparr>spc := S_Release (copy f)\<rparr>) (ks @ [k])"
proof -
  from ok have "sorted ks" and b: "\<forall>j \<in> set ks. j < Suc k"
    and o: "map Some (out ss) = map (emitted_chunk X) ks"
    using p by (simp_all add: sess_ok_def)
  from b have "\<forall>j \<in> set ks. j \<le> k" by auto
  with \<open>sorted ks\<close> have "sorted (ks @ [k])" by (simp add: sorted_append)
  with b o c show ?thesis by (simp add: sess_ok_def copied_def)
qed

lemma sess_ok_abort:
  assumes ok: "sess_ok X n ss ks" and p: "pending (spc ss) = Some img"
  shows "sess_ok X n (ss\<lparr>spc := S_Dead e\<rparr>) (butlast ks)"
proof -
  from ok p have s: "sorted ks" and b: "\<forall>j \<in> set ks. j < n"
    and o: "map Some (out ss) = map (emitted_chunk X) (butlast ks)"
    by (simp_all add: sess_ok_def)
  from s have "sorted (butlast ks)" by (rule sorted_butlast)
  moreover from b have "\<forall>j \<in> set (butlast ks). j < n" by (auto dest: in_set_butlastD)
  ultimately show ?thesis using o by (simp add: sess_ok_def)
qed

lemma sess_ok_emit:
  assumes ok: "sess_ok X n ss ks" and p: "spc ss = S_Encode img"
    and e: "imencode X img = Inr (flag, buffer)" and t: "tobytes buffer = Inr jpg_bytes"
  shows "sess_ok X n (ss\<lparr>spc := S_Yield, out := out ss @ [chunk jpg_bytes]\<rparr>) ks"
proof -
  from ok p have s: "sorted ks" and b: "\<forall>j \<in> set ks. j < n" and ne: "ks \<noteq> []"
    and c: "copied X (last ks) = Some img"
    and o: "map Some (out ss) = map (emitted_chunk X) (butlast ks)"
    by (simp_all add: sess_ok_def)
  from c e t have l: "emitted_chunk X (last ks) = Some (chunk jpg_bytes)"
    by (simp add: emitted_chunk_def)
  from ne have "ks = butlast ks @ [last ks]" by simp
  then have "map (emitted_chunk X) ks = map (emitted_chunk X) (butlast ks) @ [emitted_chunk X (last ks)]"
    by (metis list.simps(8) list.simps(9) map_append)
  with o l have "map Some (out ss @ [chunk jpg_bytes]) = map (emitted_chunk X) ks" by simp
  with s b show ?thesis by (simp add: sess_ok_def)
qed

lemma sess_ok_session:
  assumes l: "lock_inv s" and c: "cell_inv X s" and i: "i < length (sessions s)"
    and ok: "sess_ok X (completed s) (sessions s ! i) ks"
  shows "\<exists>ks'. sess_ok X (completed s) (sessions (session_step X i s) ! i) ks'"
proof (cases "spc (sessions s ! i)")
  case S_Check
  with i sess_ok_pc [OF _ _ ok, of S_Sleep] sess_ok_pc [OF _ _ ok, of S_Acquire]
  show ?thesis
    by (auto simp: session_step_def set_session_def Let_def split: option.splits)
next
  case S_Sleep
  with i sess_ok_pc [OF _ _ ok, of S_Check] show ?thesis
    by (auto simp: session_step_def set_session_def Let_def)
next
  case S_Acquire
  with i sess_ok_pc [OF _ _ ok, of S_Copy] ok show ?thesis
    by (auto simp: session_step_def set_session_def Let_def)
next
  case S_Copy
  show ?thesis
  proof (cases "frame s")
    case None
    with S_Copy i sess_ok_pc [OF _ _ ok, of "S_Dead (Exception ''AttributeError'')"]
    show ?thesis
      by (auto simp: session_step_def set_session_def Let_def)
  next
    case (Some f)
    from l i S_Copy have "lock s = Some (T_Session i)" by (simp add: lock_inv_def)
    with l have "\<not> cap_holds (cap s)" by (auto simp: lock_inv_def)
    from cell_when_free [OF c this] Some obtain k
      where k: "completed s = Suc k" "published X k = Some (f, detections s)"
      by (auto simp: cell_def split: nat.splits)
    from ok S_Copy k have "sess_ok X (completed s) ((sessions s ! i)\<lparr>spc := S_Release (copy f)\<rparr>) (ks @ [k])"
      using sess_ok_copy [of X k "sessions s ! i" ks f "detections s"] by simp
    with S_Copy Some i show ?thesis
      by (auto simp: session_step_def set_session_def Let_def)
  qed
next
  case (S_Release img)
  from ok S_Release have "sess_ok X (completed s) ((sessions s ! i)\<lparr>spc := S_Encode img\<rparr>) ks"
    by (simp add: sess_ok_def)
  with S_Release i show ?thesis
    by (auto simp: session_step_def set_session_def Let_def)
next
  case (S_Encode img)
  then have p: "pending (spc (sessions s ! i)) = Some img" by simp
  show ?thesis
  proof (cases "imencode X img")
    case (Inl e)
    with S_Encode i sess_ok_abort [OF ok p, of e] show ?thesis
      by (auto simp: session_step_def set_session_def Let_def)
  next
    case (Inr a)
    then obtain flag buffer where a: "imencode X img = Inr (flag, buffer)" by (cases a) auto
    show ?thesis
    proof (cases "tobytes buffer")
      case (Inl e)
      with a S_Encode i sess_ok_abort [OF ok p, of e] show ?thesis
        by (auto simp: session_step_def set_session_def Let_def)
    next
      case (Inr jpg_bytes)
      with a S_Encode i sess_ok_emit [OF ok S_Encode a Inr] show ?thesis
        by (auto simp: session_step_def set_session_def Let_def)
    qed
  qed
next
  case S_Yield
  with i sess_ok_pc [OF _ _ ok, of S_Check] show ?thesis
    by (auto simp: session_step_def set_session_def Let_def)
next
  case S_Closed
  with i ok show ?thesis by (auto simp: session_step_def Let_def)
next
  case (S_Dead e)
  with i ok show ?thesis by (auto simp: session_step_def Let_def)
qed

lemma session_step_other:
  "j \<noteq> i \<Longrightarrow> sessions (session_step X i s) ! j = sessions s ! j"
  by (cases "spc (sessions s ! i)")
     (auto simp: session_step_def set_session_def Let_def split: option.splits sum.splits)

lemma sess_inv_init: "sess_inv X init"
  by (simp add: sess_inv_def init_def)

lemma sess_inv_step:
  assumes l: "lock_inv s" and c: "cell_inv X s" and v: "sess_inv X s"
  shows "sess_inv X (step X s e)"
proof (cases e)
  case Ev_Capture
  have "completed s \<le> completed (capture_step X s)" by (rule completed_mono)
  with v show ?thesis using Ev_Capture
    by (auto simp: sess_inv_def) (metis sess_ok_mono)
next
  case (Ev_Session i)
  show ?thesis unfolding sess_inv_def
  proof (intro allI impI)
    fix j assume "j < length (sessions (step X s e))"
    with Ev_Session have j: "j < length (sessions s)" by simp
    with v obtain ks where ks: "sess_ok X (completed s) (sessions s ! j) ks"
      by (auto simp: sess_inv_def)
    show "\<exists>ks. sess_ok X (completed (step X s e)) (sessions (step X s e) ! j) ks"
    proof (cases "j = i")
      case True
      with sess_ok_session [OF l c _ ks] j Ev_Session show ?thesis by simp
    next
      case False
      with ks Ev_Session show ?thesis by (auto simp: session_step_other)
    qed
  qed
next
  case (Ev_Query j)
  with v show ?thesis by (simp add: sess_inv_def)
next
  case Ev_Connect
  have "sess_ok X n \<lparr>spc = S_Check, out = []\<rparr> []" for n by (simp add: sess_ok_def)
  with v show ?thesis using Ev_Connect
    by (auto simp: sess_inv_def nth_append)
next
  case Ev_Request
  with v show ?thesis by (simp add: sess_inv_def)
next
  case (Ev_Disconnect i)
  show ?thesis unfolding sess_inv_def
  proof (intro allI impI)
    fix j assume "j < length (sessions (step X s e))"
    with Ev_Disconnect have j: "j < length (sessions s)" by simp
    with v obtain ks where ks: "sess_ok X (completed s) (sessions s ! j) ks"
      by (auto simp: sess_inv_def)
    have "sess_ok X (completed s) (sessions (disconnect i s) ! j) ks"
    proof (cases "j = i \<and> spc (sessions s ! i) = S_Yield")
      case True
      with j have "sessions (disconnect i s) ! j = (sessions s ! j)\<lparr>spc := S_Closed\<rparr>"
        by (simp add: disconnect_def set_session_def)
      moreover from True ks have "sess_ok X (completed s) ((sessions s ! j)\<lparr>spc := S_Closed\<rparr>) ks"
        by (simp add: sess_ok_pc)
      ultimately show ?thesis by simp
    next
      case False
      with j have "sessions (disconnect i s) ! j = sessions s ! j"
        by (auto simp: disconnect_def set_session_def nth_list_update)
      with ks show ?thesis by simp
    qed
    with Ev_Disconnect show "\<exists>ks. sess_ok X (completed (step X s e)) (sessions (step X s e) ! j) ks"
      by auto
  qed
qed

lemma sess_inv_run: "sess_inv X (run X evs)"
proof (induction evs rule: rev_induct)
  case Nil
  show ?case by (simp add: run_def sess_inv_init)
next
  case (snoc e evs)
  from lock_inv_run cell_inv_run snoc have "sess_inv X (step X (run X evs) e)" by (rule sess_inv_step)
  then show ?case by (simp only: run_snoc)
qed

lemma qry_inv_init: "qry_inv X init"
  by (simp add: qry_inv_def init_def)

lemma served_now:
  assumes l: "lock_inv s" and c: "cell_inv X s" and j: "j < length (queries s)"
    and q: "queries s ! j = Q_Dump"
  shows "served X (completed s) (json_dumps X (detections s))"
proof -
  from l j q have "lock s = Some (T_Query j)" by (simp add: lock_inv_def)
  with l have "\<not> cap_holds (cap s)" by (auto simp: lock_inv_def)
  from cell_when_free [OF c this] show ?thesis
    by (cases "completed s") (auto simp: cell_def served_def)
qed

lemma qry_inv_step:
  assumes l: "lock_inv s" and c: "cell_inv X s" and v: "qry_inv X s"
  shows "qry_inv X (step X s e)"
proof (cases e)
  case Ev_Capture
  have "completed s \<le> completed (capture_step X s)" by (rule completed_mono)
  with v show ?thesis using Ev_Capture
    by (auto simp: qry_inv_def) (meson le_trans)
next
  case (Ev_Session i)
  with v show ?thesis by (simp add: qry_inv_def)
next
  case (Ev_Query j)
  show ?thesis
  proof (cases "j < length (queries s)")
    case True
    show ?thesis
    proof (cases "queries s ! j")
      case Q_Acquire
      with v True Ev_Query show ?thesis
        by (auto simp: qry_inv_def query_step_def nth_list_update)
    next
      case Q_Dump
      from served_now [OF l c True Q_Dump]
      have "\<exists>n \<le> completed s. served X n (json_dumps X (detections s))" by auto
      with v True Ev_Query Q_Dump show ?thesis
        by (auto simp: qry_inv_def query_step_def nth_list_update)
    next
      case (Q_Release r)
      with v True have "\<exists>n \<le> completed s. served X n r" by (auto simp: qry_inv_def)
      with v True Ev_Query Q_Release show ?thesis
        by (auto simp: qry_inv_def query_step_def nth_list_update)
    next
      case (Q_Done r)
      with v True Ev_Query show ?thesis by (simp add: query_step_def)
    qed
  next
    case False
    with v Ev_Query show ?thesis by (simp add: query_step_def)
  qed
next
  case Ev_Connect
  with v show ?thesis by (simp add: qry_inv_def)
next
  case Ev_Request
  with v show ?thesis by (auto simp: qry_inv_def nth_append)
next
  case (Ev_Disconnect i)
  with v show ?thesis by (simp add: qry_inv_def)
qed

lemma qry_inv_run: "qry_inv X (run X evs)"
proof (induction evs rule: rev_induct)
  case Nil
  show ?case by (simp add: run_def qry_inv_init)
next
  case (snoc e evs)
  from lock_inv_run cell_inv_run snoc have "qry_inv X (step X (run X evs) e)" by (rule qry_inv_step)
  then show ?case by (simp only: run_snoc)
qed

subsection \<open>Sessions of the camera server emit stored frames in order\<close>

lemma pi_stores_from_append:
  "pi_stores_from X s (es @ es') = pi_stores_from X s es @ pi_stores_from X (foldl (pi_step X) s es) es'"
  by (induction es arbitrary: s) simp_all

lemma pi_published_snoc:
  "pi_published X (evs @ [e]) = pi_published X evs @ pi_store_of (pi_run X evs) e"
  by (simp add: pi_published_def pi_run_def pi_stores_from_append)

lemma pi_chunk_append: "k < length fs \<Longrightarrow> pi_chunk (fs @ gs) k = pi_chunk fs k"
  by (simp add: pi_chunk_def nth_append)

lemma psess_ok_append:
  assumes "psess_ok fs ss ks"
  shows "psess_ok (fs @ gs) ss ks"
proof -
  from assms have b: "\<forall>k \<in> set ks. k < length fs" by (simp add: psess_ok_def)
  then have m: "map (pi_chunk (fs @ gs)) ks = map (pi_chunk fs) ks"
    by (simp add: pi_chunk_append)
  from b have "\<forall>k \<in> set (butlast ks). k < length fs" by (auto dest: in_set_butlastD)
  then have m': "map (pi_chunk (fs @ gs)) (butlast ks) = map (pi_chunk fs) (butlast ks)"
    by (simp add: pi_chunk_append)
  have l: "ks \<noteq> [] \<Longrightarrow> (fs @ gs) ! last ks = fs ! last ks"
    using b by (simp add: nth_append)
  from assms b m m' l show ?thesis
    by (auto simp: psess_ok_def split: option.splits)
qed

lemma psess_ok_pc:
  "ppending pc = None \<Longrightarrow> ppending (ppc ss) = None \<Longrightarrow> psess_ok fs ss ks
     \<Longrightarrow> psess_ok fs (ss\<lparr>ppc := pc\<rparr>) ks"
  by (simp add: psess_ok_def)

lemma psess_ok_read:
  assumes ok: "psess_ok fs ss ks" and p: "ppending (ppc ss) = None"
    and l: "v = (if fs = [] then None else last fs)"
  shows "\<exists>ks'. psess_ok fs (ss\<lparr>ppc := PS_Release v\<rparr>) ks'"
proof (cases v)
  case None
  with ok p show ?thesis by (auto simp: psess_ok_def)
next
  case (Some f)
  with l have ne: "fs \<noteq> []" and lf: "last fs = Some f" by (auto split: if_splits)
  from ok p have s: "sorted ks" and b: "\<forall>k \<in> set ks. k < length fs"
    and o: "map Some (pout ss) = map (pi_chunk fs) ks"
    by (simp_all add: psess_ok_def)
  let ?k = "length fs - 1"
  from b have "\<forall>k \<in> set ks. k \<le> ?k" by auto
  with s have "sorted (ks @ [?k])" by (simp add: sorted_append)
  moreover from ne lf have "fs ! ?k = Some f" by (simp add: last_conv_nth)
  ultimately have "psess_ok fs (ss\<lparr>ppc := PS_Release v\<rparr>) (ks @ [?k])"
    using b o ne Some by (simp add: psess_ok_def)
  then show ?thesis ..
qed

lemma psess_ok_test:
  assumes ok: "psess_ok fs ss ks" and p: "ppc ss = PS_Test v"
  shows "case v of None \<Rightarrow> psess_ok fs (ss\<lparr>ppc := PS_Sleep\<rparr>) ks
         | Some f \<Rightarrow> psess_ok fs (ss\<lparr>ppc := PS_Yield, pout := pout ss @ [chunk f]\<rparr>) ks"
proof (cases v)
  case None
  with ok p show ?thesis by (simp add: psess_ok_def)
next
  case (Some f)
  with ok p have s: "sorted ks" and b: "\<forall>k \<in> set ks. k < length fs" and ne: "ks \<noteq> []"
    and c: "fs ! last ks = Some f"
    and o: "map Some (pout ss) = map (pi_chunk fs) (butlast ks)"
    by (simp_all add: psess_ok_def)
  from c have l: "pi_chunk fs (last ks) = Some (chunk f)" by (simp add: pi_chunk_def)
  from ne have "ks = butlast ks @ [last ks]" by simp
  then have "map (pi_chunk fs) ks = map (pi_chunk fs) (butlast ks) @ [pi_chunk fs (last ks)]"
    by (metis list.simps(8) list.simps(9) map_append)
  with o l have "map Some (pout ss @ [chunk f]) = map (pi_chunk fs) ks" by simp
  with s b Some show ?thesis by (simp add: psess_ok_def)
qed

lemma psess_ok_session:
  assumes h: "latest_frame_buffer s = (if fs = [] then None else last fs)"
    and i: "i < length (psessions s)" and ok: "psess_ok fs (psessions s ! i) ks"
  shows "\<exists>ks'. psess_ok fs (psessions (pi_session_step i s) ! i) ks'"
proof (cases "ppc (psessions s ! i)")
  case PS_Start
  with i psess_ok_pc [OF _ _ ok, of PS_Acquire] show ?thesis
    by (auto simp: pi_session_step_def set_psession_def Let_def)
next
  case PS_Acquire
  with i psess_ok_pc [OF _ _ ok, of PS_Read] ok show ?thesis
    by (auto simp: pi_session_step_def set_psession_def Let_def)
next
  case PS_Read
  with i psess_ok_read [OF ok _ h] show ?thesis
    by (auto simp: pi_session_step_def set_psession_def Let_def)
next
  case (PS_Release v)
  with ok have "psess_ok fs ((psessions s ! i)\<lparr>ppc := PS_Test v\<rparr>) ks"
    by (simp add: psess_ok_def split: option.splits)
  with PS_Release i show ?thesis
    by (auto simp: pi_session_step_def set_psession_def Let_def)
next
  case (PS_Test v)
  with i psess_ok_test [OF ok PS_Test] show ?thesis
    by (cases v) (auto simp: pi_session_step_def set_psession_def Let_def)
next
  case PS_Sleep
  with i psess_ok_pc [OF _ _ ok, of PS_Acquire] show ?thesis
    by (auto simp: pi_session_step_def set_psession_def Let_def)
next
  case PS_Yield
  with i psess_ok_pc [OF _ _ ok, of PS_Pace] show ?thesis
    by (auto simp: pi_session_step_def set_psession_def Let_def)
next
  case PS_Pace
  with i psess_ok_pc [OF _ _ ok, of PS_Acquire] show ?thesis
    by (auto simp: pi_session_step_def set_psession_def Let_def)
next
  case PS_Closed
  with i ok show ?thesis by (auto simp: pi_session_step_def Let_def)
qed

lemma pi_session_step_other:
  "j \<noteq> i \<Longrightarrow> psessions (pi_session_step i s) ! j = psessions s ! j"
  by (cases "ppc (psessions s ! i)")
     (auto simp: pi_session_step_def set_psession_def Let_def split: option.splits)

lemma pi_capture_step_fields [simp]: "psessions (pi_capture_step X s) = psessions s"
  by (cases "pcap s") (auto simp: pi_capture_step_def split: prod.splits)

lemma pi_encoder_step_fields [simp]:
  "psessions (pi_encoder_step X s) = psessions s"
  "latest_frame_buffer (pi_encoder_step X s) = latest_frame_buffer s"
  by (cases "encoder s"; simp add: pi_encoder_step_def)+

lemma hist_inv_step:
  assumes v: "hist_inv s fs"
  shows "hist_inv (pi_step X s e) (fs @ pi_store_of s e)"
proof (cases e)
  case PEv_Capture
  from v have a: "\<forall>i < length (psessions s). \<exists>ks. psess_ok (fs @ pi_store_of s e) (psessions s ! i) ks"
    by (auto simp: hist_inv_def intro: psess_ok_append)
  from v have "latest_frame_buffer (pi_capture_step X s)
      = (if fs @ pi_store_of s e = [] then None else last (fs @ pi_store_of s e))"
    using PEv_Capture
    by (cases "pcap s") (auto simp: hist_inv_def pi_capture_step_def pi_store_of_def split: prod.splits)
  with a PEv_Capture show ?thesis by (simp add: hist_inv_def)
next
  case PEv_Encoder
  with v show ?thesis by (simp add: hist_inv_def pi_store_of_def)
next
  case (PEv_Session i)
  from v have h: "latest_frame_buffer s = (if fs = [] then None else last fs)"
    by (simp add: hist_inv_def)
  have "\<exists>ks. psess_ok fs (psessions (pi_session_step i s) ! j) ks"
    if j: "j < length (psessions s)" for j
  proof -
    from v j obtain ks where ks: "psess_ok fs (psessions s ! j) ks" by (auto simp: hist_inv_def)
    show ?thesis
    proof (cases "j = i")
      case True
      with psess_ok_session [OF h _ ks] j show ?thesis by simp
    next
      case False
      with ks show ?thesis by (auto simp: pi_session_step_other)
    qed
  qed
  with h PEv_Session show ?thesis by (simp add: hist_inv_def pi_store_of_def)
next
  case PEv_Connect
  have "psess_ok fs \<lparr>ppc = PS_Start, pout = []\<rparr> []" by (simp add: psess_ok_def)
  with v PEv_Connect show ?thesis
    by (auto simp: hist_inv_def pi_store_of_def nth_append)
next
  case (PEv_Disconnect i)
  from v have h: "latest_frame_buffer s = (if fs = [] then None else last fs)"
    by (simp add: hist_inv_def)
  have "\<exists>ks. psess_ok fs (psessions (pi_disconnect i s) ! j) ks"
    if j: "j < length (psessions s)" for j
  proof -
    from v j obtain ks where ks: "psess_ok fs (psessions s ! j) ks" by (auto simp: hist_inv_def)
    have "psess_ok fs (psessions (pi_disconnect i s) ! j) ks"
    proof (cases "j = i \<and> ppc (psessions s ! i) = PS_Yield")
      case True
      with j have "psessions (pi_disconnect i s) ! j = (psessions s ! j)\<lparr>ppc := PS_Closed\<rparr>"
        by (simp add: pi_disconnect_def set_psession_def)
      moreover from True ks have "psess_ok fs ((psessions s ! j)\<lparr>ppc := PS_Closed\<rparr>) ks"
        by (simp add: psess_ok_pc)
      ultimately show ?thesis by simp
    next
      case False
      with j have "psessions (pi_disconnect i s) ! j = psessions s ! j"
        by (auto simp: pi_disconnect_def set_psession_def nth_list_update)
      with ks show ?thesis by simp
    qed
    then show ?thesis ..
  qed
  with h PEv_Disconnect show ?thesis by (simp add: hist_inv_def pi_store_of_def)
qed

lemma hist_inv_run: "hist_inv (pi_run X evs) (pi_published X evs)"
proof (induction evs rule: rev_induct)
  case Nil
  show ?case by (simp add: pi_run_def pi_published_def hist_inv_def pi_init_def)
next
  case (snoc e evs)
  then have "hist_inv (pi_step X (pi_run X evs) e) (pi_published X evs @ pi_store_of (pi_run X evs) e)"
    by (rule hist_inv_step)
  then show ?case by (simp only: pi_run_snoc pi_published_snoc)
qed

lemma sess_ok_out:
  assumes "sess_ok X n ss ks"
  shows "\<exists>ks'. sorted ks' \<and> (\<forall>k \<in> set ks'. k < n) \<and> map Some (out ss) = map (emitted_chunk X) ks'"
proof (cases "pending (spc ss)")
  case None
  with assms show ?thesis by (auto simp: sess_ok_def)
next
  case (Some img)
  with assms have "sorted (butlast ks)" and "\<forall>k \<in> set (butlast ks). k < n"
    and "map Some (out ss) = map (emitted_chunk X) (butlast ks)"
    by (auto simp: sess_ok_def sorted_butlast dest: in_set_butlastD)
  then show ?thesis by blast
qed

lemma psess_ok_out:
  assumes "psess_ok fs ss ks"
  shows "\<exists>ks'. sorted ks' \<and> (\<forall>k \<in> set ks'. k < length fs) \<and> map Some (pout ss) = map (pi_chunk fs) ks'"
proof (cases "ppending (ppc ss)")
  case None
  with assms show ?thesis by (auto simp: psess_ok_def)
next
  case (Some f)
  with assms have "sorted (butlast ks)" and "\<forall>k \<in> set (butlast ks). k < length fs"
    and "map Some (pout ss) = map (pi_chunk fs) (butlast ks)"
    by (auto simp: psess_ok_def sorted_butlast dest: in_set_butlastD)
  then show ?thesis by blast
qed

lemma demo_session_emits:
  "run demo (replicate 6 Ev_Capture @ Ev_Connect # replicate 5 (Ev_Session 0)) =
     \<lparr>frame = Some 0, detections = [], lock = None, nreads = 1, cap = C_Loop,
      stdout = [], sessions = [\<lparr>spc = S_Yield, out = [chunk ''jpeg'']\<rparr>], queries = []\<rparr>"
  by (simp add: run_append demo_first_publish)
     (simp add: demo_def step_defs numeral_eq_Suc)

lemma demo_emitted_0: "emitted_chunk demo 0 = Some (chunk ''jpeg'')"
  by (simp add: emitted_chunk_def copied_def demo_published_0) (simp add: demo_def copy_def)

lemma pi_demo_session_emits:
  "psessions (pi_run pi_demo (replicate 3 PEv_Capture @ replicate 5 PEv_Encoder
       @ replicate 6 PEv_Capture @ PEv_Connect # replicate 5 (PEv_Session 0)))
     = [\<lparr>ppc = PS_Yield, pout = [chunk ''jpeg'']\<rparr>]"
  by (simp add: pi_run_def pi_demo_def pi_init_def pi_step_defs numeral_eq_Suc)

lemma pi_demo_stores:
  "pi_published pi_demo (replicate 3 PEv_Capture @ replicate 5 PEv_Encoder
       @ replicate 6 PEv_Capture @ PEv_Connect # replicate 5 (PEv_Session 0)) = [Some ''jpeg'']"
  by (simp add: pi_published_def pi_store_of_def pi_demo_def pi_init_def pi_step_defs numeral_eq_Suc)

subsection \<open>The format of the chunks\<close>

lemma chunk_bytes:
  "chunk p = ''--frame'' @ [CHR 0x0D, CHR 0x0A] @ ''Content-Type: image/jpeg''
      @ [CHR 0x0D, CHR 0x0A, CHR 0x0D, CHR 0x0A] @ p @ [CHR 0x0D, CHR 0x0A]"
  by (simp add: chunk_def CRLF_def)

lemma map_Some_mem:
  assumes a: "map Some xs = map g ks" and c: "c \<in> set xs"
  shows "\<exists>k \<in> set ks. g k = Some c"
proof -
  from a have "set (map Some xs) = set (map g ks)" by (rule arg_cong)
  then have e: "Some ` set xs = g ` set ks" by (simp only: set_map)
  from c have "Some c \<in> Some ` set xs" by (rule imageI)
  with e have "Some c \<in> g ` set ks" by simp
  then obtain k where "k \<in> set ks" and "Some c = g k" by (rule imageE)
  then show ?thesis by auto
qed

lemma emitted_chunk_Some:
  assumes "emitted_chunk X k = Some c"
  shows "\<exists>f ds ok jpg. published X k = Some (f, ds) \<and> imencode X (copy f) = Inr (ok, Ndarray jpg)
           \<and> c = chunk jpg"
proof -
  from assms obtain img where c: "copied X k = Some img"
    by (auto simp: emitted_chunk_def split: option.splits)
  then obtain f ds where p: "published X k = Some (f, ds)" and i: "img = copy f"
    by (auto simp: copied_def split: option.splits)
  from assms c obtain ok buffer where e: "imencode X img = Inr (ok, buffer)"
    by (auto simp: emitted_chunk_def split: sum.splits)
  from assms c e obtain jpg where t: "tobytes buffer = Inr jpg" and r: "c = chunk jpg"
    by (auto simp: emitted_chunk_def split: sum.splits)
  from t have "buffer = Ndarray jpg" by (cases buffer) auto
  with p i e r show ?thesis by blast
qed

lemma from_encoder_mono:
  assumes "from_encoder X n b" and "n \<le> m"
  shows "from_encoder X m b"
proof -
  from assms(1) obtain k where "k < n" and b: "b = encoded X k" by (auto simp: from_encoder_def)
  with assms(2) have "k < m" by simp
  with b show ?thesis unfolding from_encoder_def by blast
qed

lemma pi_prov_init: "pi_prov X pi_init"
  by (simp add: pi_prov_def pi_init_def)

lemma pi_prov_capture: "pi_prov X s \<Longrightarrow> pi_prov X (pi_capture_step X s)"
  by (cases "pcap s") (auto simp: pi_prov_def pi_capture_step_def split: prod.splits)

lemma pi_prov_encoder: "pi_prov X s \<Longrightarrow> pi_prov X (pi_encoder_step X s)"
proof (cases "encoder s")
  case E_Idle
  assume v: "pi_prov X s"
  show ?thesis
  proof (cases "recording s")
    case True
    have m: "from_encoder X (nwrites s) b \<Longrightarrow> from_encoder X (Suc (nwrites s)) b" for b
      by (erule from_encoder_mono) simp
    have n: "from_encoder X (Suc (nwrites s)) (encoded X (nwrites s))"
      by (auto simp: from_encoder_def)
    from v E_Idle True m n show ?thesis
      by (simp add: pi_prov_def pi_encoder_step_def) blast
  next
    case False
    with v E_Idle show ?thesis by (simp add: pi_encoder_step_def)
  qed
next
  case (E_Acquire buf)
  assume "pi_prov X s"
  with E_Acquire show ?thesis by (auto simp: pi_prov_def pi_encoder_step_def)
next
  case (E_Set buf)
  assume "pi_prov X s"
  with E_Set show ?thesis by (auto simp: pi_prov_def pi_encoder_step_def)
next
  case E_Notify
  assume "pi_prov X s"
  with E_Notify show ?thesis by (cases "pcap s") (auto simp: pi_prov_def pi_encoder_step_def)
next
  case E_Release
  assume "pi_prov X s"
  with E_Release show ?thesis by (auto simp: pi_prov_def pi_encoder_step_def)
qed

lemma pi_prov_session: "pi_prov X s \<Longrightarrow> pi_prov X (pi_session_step i s)"
proof (cases "ppc (psessions s ! i)")
  case (PS_Test v)
  assume p: "pi_prov X s"
  show ?thesis
  proof (cases "i < length (psessions s)")
    case True
    show ?thesis
    proof (cases v)
      case None
      with p PS_Test True show ?thesis
        by (auto simp: pi_prov_def pi_session_step_def set_psession_def Let_def nth_list_update)
    next
      case (Some f)
      with p PS_Test True have "from_encoder X (nwrites s) f" by (auto simp: pi_prov_def)
      then have "\<exists>b. from_encoder X (nwrites s) b \<and> chunk f = chunk b" by blast
      with p PS_Test True Some show ?thesis
        by (auto simp: pi_prov_def pi_session_step_def set_psession_def Let_def nth_list_update)
    qed
  next
    case False
    with p show ?thesis by (simp add: pi_session_step_def)
  qed
qed (auto simp: pi_prov_def pi_session_step_def set_psession_def Let_def nth_list_update)

lemma pi_prov_disconnect: "pi_prov X s \<Longrightarrow> pi_prov X (pi_disconnect i s)"
  by (auto simp: pi_prov_def pi_disconnect_def set_psession_def nth_list_update)

lemma pi_prov_step: "pi_prov X s \<Longrightarrow> pi_prov X (pi_step X s e)"
proof (cases e)
  case PEv_Connect
  assume "pi_prov X s"
  with PEv_Connect show ?thesis by (auto simp: pi_prov_def nth_append)
qed (simp_all add: pi_prov_capture pi_prov_encoder pi_prov_session pi_prov_disconnect)

lemma pi_prov_run: "pi_prov X (pi_run X evs)"
proof (induction evs rule: rev_induct)
  case Nil
  show ?case by (simp add: pi_run_def pi_prov_init)
next
  case (snoc e evs)
  then have "pi_prov X (pi_step X (pi_run X evs) e)" by (rule pi_prov_step)
  then show ?case by (simp only: pi_run_snoc)
qed

subsection \<open>Before the first publish\<close>

lemma json_dumps_Nil: "json_dumps X [] = ''[]''"
  by (simp add: json_dumps_def)

lemma idle_inv_session:
  assumes l: "lock_inv s" and c: "cell_inv X s" and w: "wait_inv s" and v: "idle_inv s"
  shows "idle_inv (session_step X i s)"
proof (cases "i < length (sessions s) \<and> spc (sessions s ! i) = S_Acquire \<and> lock s = None")
  case True
  with w have f: "frame s \<noteq> None" by (auto simp: wait_inv_def)
  from True l have "\<not> cap_holds (cap s)" by (auto simp: lock_inv_def)
  from cell_when_free [OF c this] f have "0 < completed s"
    by (cases "completed s") (auto simp: cell_def)
  then show ?thesis by (simp add: idle_inv_def)
next
  case False
  have "\<not> idle (spc (sessions (session_step X i s) ! j)) \<Longrightarrow> \<not> idle (spc (sessions s ! j))"
    if "j < length (sessions s)" for j
  proof (cases "j = i")
    case True
    with False that show "\<not> idle (spc (sessions (session_step X i s) ! j)) \<Longrightarrow> \<not> idle (spc (sessions s ! j))"
      by (cases "spc (sessions s ! i)")
         (auto simp: session_step_def set_session_def Let_def split: option.splits sum.splits if_splits)
  next
    case False
    then show "\<not> idle (spc (sessions (session_step X i s) ! j)) \<Longrightarrow> \<not> idle (spc (sessions s ! j))"
      by (simp add: session_step_other)
  qed
  with v show ?thesis by (auto simp: idle_inv_def)
qed

lemma idle_inv_step:
  assumes l: "lock_inv s" and c: "cell_inv X s" and w: "wait_inv s" and v: "idle_inv s"
  shows "idle_inv (step X s e)"
proof (cases e)
  case Ev_Capture
  have "completed s \<le> completed (capture_step X s)" by (rule completed_mono)
  with v Ev_Capture show ?thesis by (auto simp: idle_inv_def)
next
  case (Ev_Session i)
  with idle_inv_session [OF l c w v] show ?thesis by simp
next
  case (Ev_Query j)
  with v show ?thesis by (simp add: idle_inv_def)
next
  case Ev_Connect
  with v show ?thesis by (auto simp: idle_inv_def nth_append)
next
  case Ev_Request
  with v show ?thesis by (simp add: idle_inv_def)
next
  case (Ev_Disconnect i)
  with v show ?thesis
    by (auto simp: idle_inv_def disconnect_def set_session_def nth_list_update split: if_splits)
qed

lemma idle_inv_run: "idle_inv (run X evs)"
proof (induction evs rule: rev_induct)
  case Nil
  show ?case by (simp add: run_def idle_inv_def init_def)
next
  case (snoc e evs)
  from lock_inv_run cell_inv_run wait_inv_run snoc
  have "idle_inv (step X (run X evs) e)" by (rule idle_inv_step)
  then show ?case by (simp only: run_snoc)
qed

lemma no_output_yet:
  assumes "completed (run X evs) = 0" and i: "i < length (sessions (run X evs))"
  shows "out (sessions (run X evs) ! i) = []"
proof -
  from sess_inv_run [of X evs] i obtain ks0
    where "sess_ok X (completed (run X evs)) (sessions (run X evs) ! i) ks0"
    by (auto simp: sess_inv_def)
  from sess_ok_out [OF this] assms(1) obtain ks
    where "\<forall>k \<in> set ks. k < (0::nat)"
      and m: "map Some (out (sessions (run X evs) ! i)) = map (emitted_chunk X) ks"
    by auto
  then have "ks = []" by (cases ks) auto
  with m show ?thesis by simp
qed

lemma empty_response_yet:
  assumes "completed (run X evs) = 0" and j: "j < length (queries (run X evs))"
    and r: "response (queries (run X evs) ! j) = Some r"
  shows "r = ''[]''"
proof -
  from qry_inv_run [of X evs] j r assms(1) have "served X 0 r" by (auto simp: qry_inv_def)
  then show ?thesis by (simp add: served_def json_dumps_Nil)
qed

lemma sleeping_without_frame:
  assumes f: "frame (run X evs) = None" and i: "i < length (sessions (run X evs))"
  shows "spc (sessions (run X evs) ! i) = S_Check \<or> spc (sessions (run X evs) ! i) = S_Sleep"
proof -
  from f frame_present [OF cell_inv_run, of X evs] have z: "completed (run X evs) = 0" by auto
  with idle_inv_run [of X evs] i have "idle (spc (sessions (run X evs) ! i))"
    by (auto simp: idle_inv_def)
  moreover from wait_inv_run [of X evs] i f have "spc (sessions (run X evs) ! i) \<noteq> S_Acquire"
    by (auto simp: wait_inv_def)
  ultimately show ?thesis by (cases "spc (sessions (run X evs) ! i)") auto
qed

lemma request_completes:
  assumes "lock s = None"
  shows "queries (foldl (step X) s (Ev_Request # replicate 3 (Ev_Query (length (queries s)))))
           ! length (queries s) = Q_Done (json_dumps X (detections s))"
  using assms by (simp add: numeral_eq_Suc query_step_def nth_append)

lemma closed_inv_step:
  assumes "\<not> isOpened X" and "closed_inv s"
  shows "closed_inv (step X s e)"
proof (cases e)
  case Ev_Capture
  with assms show ?thesis by (auto simp: closed_inv_def capture_step_def)
next
  case (Ev_Session i)
  with assms(2) show ?thesis
    by (cases "spc (sessions s ! i)")
       (auto simp: closed_inv_def session_step_def set_session_def Let_def split: option.splits sum.splits)
next
  case (Ev_Query j)
  with assms(2) show ?thesis
    by (cases "queries s ! j") (auto simp: closed_inv_def query_step_def)
next
  case Ev_Connect
  with assms(2) show ?thesis by (auto simp: closed_inv_def)
next
  case Ev_Request
  with assms(2) show ?thesis by (auto simp: closed_inv_def)
next
  case (Ev_Disconnect i)
  with assms(2) show ?thesis by (auto simp: closed_inv_def)
qed

lemma closed_inv_run: "\<not> isOpened X \<Longrightarrow> closed_inv (run X evs)"
proof (induction evs rule: rev_induct)
  case Nil
  show ?case by (simp add: run_def closed_inv_def init_def)
next
  case (snoc e evs)
  then have "closed_inv (step X (run X evs) e)" by (simp add: closed_inv_step)
  then show ?case by (simp only: run_snoc)
qed


lemma demo_no_camera_run:
  "run demo_no_camera (Ev_Capture # Ev_Connect # Ev_Session 0 # Ev_Request # replicate 3 (Ev_Query 0)) =
     \<lparr>frame = None, detections = [], lock = None, nreads = 0, cap = C_Done,
      stdout = [''Error: Could not open camera.''],
      sessions = [\<lparr>spc = S_Sleep, out = []\<rparr>], queries = [Q_Done ''[]'']\<rparr>"
  by (simp add: run_def demo_no_camera_def demo_def init_def step_defs numeral_eq_Suc)

subsection \<open>One iteration without detections\<close>




subsection \<open>A failed inference call\<close>

text \<open>
  C3, as the code has it. \<^verbatim>\<open>results = model(img)\<close> stands in no \<^verbatim>\<open>try\<close>: when the call raises,
  the exception leaves \<^verbatim>\<open>capture_video\<close>. Nothing is published for that iteration, and the
  capture thread is over: however often it is scheduled afterwards, it reads no further
  image, and \<^verbatim>\<open>frame\<close> and \<^verbatim>\<open>detections\<close> stay as the last completed publish left them.
\<close>

theorem inference_failure_stops_loop:
  assumes "cap s = C_Loop" and "cap_read X (nreads s) = Some img" and "model_call X img = Inl e"
  shows "cap (foldl (step X) (step X s Ev_Capture) (replicate n Ev_Capture)) = C_Crashed e
       \<and> nreads (foldl (step X) (step X s Ev_Capture) (replicate n Ev_Capture)) = Suc (nreads s)
       \<and> frame (foldl (step X) (step X s Ev_Capture) (replicate n Ev_Capture)) = frame s
       \<and> detections (foldl (step X) (step X s Ev_Capture) (replicate n Ev_Capture)) = detections s"
proof -
  let ?t = "step X s Ev_Capture"
  have t: "cap ?t = C_Crashed e" "nreads ?t = Suc (nreads s)" "frame ?t = frame s"
    "detections ?t = detections s"
    using assms by (simp_all add: capture_step_def process_def)
  have stay: "cap u = C_Crashed e \<Longrightarrow> foldl (step X) u (replicate n Ev_Capture) = u" for u
    by (induction n) (simp_all add: capture_step_def)
  show ?thesis using stay [OF t(1)] t by simp
qed

lemma demo_after_first_publish:
  "cap (run demo (replicate 6 Ev_Capture)) = C_Loop"
  "nreads (run demo (replicate 6 Ev_Capture)) = 1"
  "frame (run demo (replicate 6 Ev_Capture)) = Some 0"
  "detections (run demo (replicate 6 Ev_Capture)) = []"
  "lock (run demo (replicate 6 Ev_Capture)) = None"
  by (simp_all add: run_def demo_def init_def step_defs numeral_eq_Suc)

theorem inference_failure_stops_loop_witness:
  "cap (foldl (step demo) (step demo (run demo (replicate 6 Ev_Capture)) Ev_Capture)
         (replicate 3 Ev_Capture)) = C_Crashed (Exception ''RuntimeError'')
   \<and> nreads (foldl (step demo) (step demo (run demo (replicate 6 Ev_Capture)) Ev_Capture)
         (replicate 3 Ev_Capture)) = 2
   \<and> frame (foldl (step demo) (step demo (run demo (replicate 6 Ev_Capture)) Ev_Capture)
         (replicate 3 Ev_Capture)) = Some 0"
proof -
  have r: "cap_read demo (nreads (run demo (replicate 6 Ev_Capture))) = Some 1"
    by (simp add: demo_after_first_publish) (simp add: demo_def)
  have m: "model_call demo 1 = Inl (Exception ''RuntimeError'')"
    by (simp add: demo_def)
  show ?thesis
    using inference_failure_stops_loop [OF demo_after_first_publish(1) r m, of 3]
    by (simp add: demo_after_first_publish)
qed

text \<open>
  C3 as stated fails: the detector raises on the second image of \<open>demo\<close> and would succeed
  on the third, which the camera holds ready; after twelve steps of the capture thread the
  thread has ended with the exception, two images were read, and the frame is still the
  first one.
\<close>

theorem inference_failure_counterexample:
  "cap (run demo (replicate 12 Ev_Capture)) = C_Crashed (Exception ''RuntimeError'')
   \<and> nreads (run demo (replicate 12 Ev_Capture)) = 2
   \<and> cap_read demo 2 = Some 2
   \<and> frame (run demo (replicate 12 Ev_Capture)) = Some 0"
  by (simp add: run_def demo_def init_def step_defs numeral_eq_Suc)

subsection \<open>A failed encoding\<close>







subsection \<open>Snapshots are atomic\<close>

text \<open>
  C1. In every state the program reaches, under every interleaving of the capture thread,
  the sessions and the requests: whenever the capture thread does not hold the lock, the
  pair \<^verbatim>\<open>(frame, detections)\<close> is either the initial pair (no frame, no detections) or, for
  the number \<open>Suc k\<close> of completed publishes, exactly the pair that iteration \<open>k\<close> of the
  capture loop published, both fields from that one publish. A session reads \<^verbatim>\<open>frame\<close> and
  a request reads \<^verbatim>\<open>detections\<close> only while holding the lock, hence in such a state, and
  what they hold after the read is the copy of that frame and the encoding of those
  detections.
\<close>

theorem snapshot_atomic:
  "(lock (run X evs) \<noteq> Some T_Capture \<longrightarrow> cell X (completed (run X evs)) (run X evs))
   \<and> (\<forall>i < length (sessions (run X evs)).
         (spc (sessions (run X evs) ! i) = S_Copy \<longrightarrow> lock (run X evs) = Some (T_Session i))
       \<and> (\<forall>img. spc (sessions (run X evs) ! i) = S_Release img \<longrightarrow>
             lock (run X evs) = Some (T_Session i) \<and> map_option copy (frame (run X evs)) = Some img))
   \<and> (\<forall>j < length (queries (run X evs)).
         (queries (run X evs) ! j = Q_Dump \<longrightarrow> lock (run X evs) = Some (T_Query j))
       \<and> (\<forall>r. queries (run X evs) ! j = Q_Release r \<longrightarrow>
             lock (run X evs) = Some (T_Query j) \<and> r = json_dumps X (detections (run X evs))))"
proof -
  let ?s = "run X evs"
  have l: "lock_inv ?s" by (rule lock_inv_run)
  have c: "cell_inv X ?s" by (rule cell_inv_run)
  have r: "read_inv X ?s" by (rule read_inv_run)
  have 1: "lock ?s \<noteq> Some T_Capture \<longrightarrow> cell X (completed ?s) ?s"
    using l cell_when_free [OF c] by (auto simp: lock_inv_def)
  have 2: "\<forall>i < length (sessions ?s).
         (spc (sessions ?s ! i) = S_Copy \<longrightarrow> lock ?s = Some (T_Session i))
       \<and> (\<forall>img. spc (sessions ?s ! i) = S_Release img \<longrightarrow>
             lock ?s = Some (T_Session i) \<and> map_option copy (frame ?s) = Some img)"
    using l r by (auto simp: lock_inv_def read_inv_def)
  have 3: "\<forall>j < length (queries ?s).
         (queries ?s ! j = Q_Dump \<longrightarrow> lock ?s = Some (T_Query j))
       \<and> (\<forall>r. queries ?s ! j = Q_Release r \<longrightarrow>
             lock ?s = Some (T_Query j) \<and> r = json_dumps X (detections ?s))"
    using l r by (auto simp: lock_inv_def read_inv_def)
  from 1 2 3 show ?thesis by blast
qed

text \<open>
  A witness: after the first publish of \<open>demo\<close> a session has copied the frame and holds
  the lock; in another run a request has encoded the detections and holds the lock. Both
  see the pair of publish \<open>0\<close>.
\<close>

theorem snapshot_atomic_witness:
  "lock (run demo (replicate 6 Ev_Capture @ Ev_Connect # replicate 3 (Ev_Session 0))) = Some (T_Session 0)
   \<and> frame (run demo (replicate 6 Ev_Capture @ Ev_Connect # replicate 3 (Ev_Session 0))) = Some 0
   \<and> detections (run demo (replicate 6 Ev_Capture @ Ev_Connect # replicate 3 (Ev_Session 0))) = []
   \<and> published demo 0 = Some (0, [])
   \<and> cell demo (completed (run demo (replicate 6 Ev_Capture @ Ev_Connect # replicate 3 (Ev_Session 0))))
        (run demo (replicate 6 Ev_Capture @ Ev_Connect # replicate 3 (Ev_Session 0)))
   \<and> spc (sessions (run demo (replicate 6 Ev_Capture @ Ev_Connect # replicate 3 (Ev_Session 0))) ! 0)
       = S_Release 0
   \<and> queries (run demo (replicate 6 Ev_Capture @ Ev_Request # replicate 2 (Ev_Query 0))) ! 0
       = Q_Release ''[]''
   \<and> lock (run demo (replicate 6 Ev_Capture @ Ev_Request # replicate 2 (Ev_Query 0))) = Some (T_Query 0)
   \<and> json_dumps demo
        (detections (run demo (replicate 6 Ev_Capture @ Ev_Request # replicate 2 (Ev_Query 0)))) = ''[]''"
  using snapshot_atomic [of demo "replicate 6 Ev_Capture @ Ev_Connect # replicate 3 (Ev_Session 0)"]
    snapshot_atomic [of demo "replicate 6 Ev_Capture @ Ev_Request # replicate 2 (Ev_Query 0)"]
  by (simp add: demo_session_reads demo_query_reads demo_published_0)

subsection \<open>Present once, present forever\<close>

text \<open>
  C9. In \<^verbatim>\<open>main.py\<close>: once a publish has completed, and more generally once \<^verbatim>\<open>frame\<close> is
  not \<^verbatim>\<open>None\<close>, it is not \<^verbatim>\<open>None\<close> in any later state, whatever is scheduled; and a session
  that copies the frame under the lock always finds one. In \<^verbatim>\<open>pi_camera.py\<close>: once
  \<^verbatim>\<open>latest_frame_buffer\<close> is not \<^verbatim>\<open>None\<close> it stays so, because the value the capture thread is
  about to store is never \<^verbatim>\<open>None\<close>.
\<close>

theorem present_forever:
  "(0 < completed (run X evs) \<longrightarrow> frame (run X (evs @ evs')) \<noteq> None)
   \<and> (frame (run X evs) \<noteq> None \<longrightarrow> frame (run X (evs @ evs')) \<noteq> None)
   \<and> (\<forall>i < length (sessions (run X evs)).
         spc (sessions (run X evs) ! i) = S_Copy \<longrightarrow> frame (run X evs) \<noteq> None)
   \<and> (latest_frame_buffer (pi_run Y pevs) \<noteq> None \<longrightarrow>
         latest_frame_buffer (pi_run Y (pevs @ pevs')) \<noteq> None)
   \<and> (\<forall>frame_data. pcap (pi_run Y pevs) = P_Store frame_data \<longrightarrow> frame_data \<noteq> None)"
proof -
  have 2: "frame (run X evs) \<noteq> None \<longrightarrow> frame (run X (evs @ evs')) \<noteq> None"
    by (simp add: run_append frame_stable)
  have 1: "0 < completed (run X evs) \<longrightarrow> frame (run X (evs @ evs')) \<noteq> None"
    using 2 frame_present [OF cell_inv_run, of X evs] by blast
  have 3: "\<forall>i < length (sessions (run X evs)).
         spc (sessions (run X evs) ! i) = S_Copy \<longrightarrow> frame (run X evs) \<noteq> None"
    using wait_inv_run [of X evs] by (simp add: wait_inv_def)
  have 4: "latest_frame_buffer (pi_run Y pevs) \<noteq> None \<longrightarrow>
         latest_frame_buffer (pi_run Y (pevs @ pevs')) \<noteq> None"
    using latest_stable [OF pi_inv_run, of Y pevs Y pevs'] by (simp add: pi_run_def)
  have 5: "\<forall>frame_data. pcap (pi_run Y pevs) = P_Store frame_data \<longrightarrow> frame_data \<noteq> None"
    using pi_inv_run [of Y pevs] by (auto simp: pi_inv_def)
  from 1 2 3 4 5 show ?thesis by blast
qed

text \<open>
  A witness in \<open>demo\<close> and \<open>pi_demo\<close>: after the first publish, respectively the first
  store, further steps of the threads leave the frame present.
\<close>

theorem present_forever_witness:
  "0 < completed (run demo (replicate 6 Ev_Capture))
   \<and> frame (run demo (replicate 6 Ev_Capture)) = Some 0
   \<and> frame (run demo (replicate 6 Ev_Capture @ [Ev_Capture, Ev_Connect, Ev_Session 0])) \<noteq> None
   \<and> spc (sessions (run demo (replicate 6 Ev_Capture @ Ev_Connect # replicate 2 (Ev_Session 0))) ! 0)
        = S_Copy
   \<and> frame (run demo (replicate 6 Ev_Capture @ Ev_Connect # replicate 2 (Ev_Session 0))) \<noteq> None
   \<and> latest_frame_buffer (pi_run pi_demo
        (replicate 3 PEv_Capture @ replicate 5 PEv_Encoder @ replicate 5 PEv_Capture)) = Some ''jpeg''
   \<and> latest_frame_buffer (pi_run pi_demo
        ((replicate 3 PEv_Capture @ replicate 5 PEv_Encoder @ replicate 5 PEv_Capture)
           @ [PEv_Capture, PEv_Encoder, PEv_Connect])) \<noteq> None
   \<and> pcap (pi_run pi_demo
        (replicate 3 PEv_Capture @ replicate 5 PEv_Encoder @ replicate 4 PEv_Capture))
        = P_Store (Some ''jpeg'')"
proof -
  have c: "0 < completed (run demo (replicate 6 Ev_Capture))"
    by (simp add: demo_first_publish completed_def)
  note a = present_forever [where X = demo and evs = "replicate 6 Ev_Capture"
      and evs' = "[Ev_Capture, Ev_Connect, Ev_Session 0]" and Y = pi_demo
      and pevs = "replicate 3 PEv_Capture @ replicate 5 PEv_Encoder @ replicate 5 PEv_Capture"
      and pevs' = "[PEv_Capture, PEv_Encoder, PEv_Connect]"]
  note b = present_forever [where X = demo
      and evs = "replicate 6 Ev_Capture @ Ev_Connect # replicate 2 (Ev_Session 0)"
      and evs' = "[]" and Y = pi_demo
      and pevs = "replicate 3 PEv_Capture @ replicate 5 PEv_Encoder @ replicate 4 PEv_Capture"
      and pevs' = "[]"]
  from a c have 1: "frame (run demo (replicate 6 Ev_Capture @ [Ev_Capture, Ev_Connect, Ev_Session 0])) \<noteq> None"
    by blast
  from a have 2: "latest_frame_buffer (pi_run pi_demo
        ((replicate 3 PEv_Capture @ replicate 5 PEv_Encoder @ replicate 5 PEv_Capture)
           @ [PEv_Capture, PEv_Encoder, PEv_Connect])) \<noteq> None"
    by (simp add: pi_demo_first_store)
  from b have 3: "frame (run demo (replicate 6 Ev_Capture @ Ev_Connect # replicate 2 (Ev_Session 0))) \<noteq> None"
    by (simp add: demo_session_copy)
  from c 1 2 3 show ?thesis
    by (simp add: demo_first_publish demo_session_copy pi_demo_first_store pi_demo_before_store)
qed

subsection \<open>Frames are emitted in publish order\<close>

text \<open>
  C5. In every reachable state of \<^verbatim>\<open>main.py\<close>, what a session has emitted is the list of the
  chunks of the frames of publishes \<open>k\<^sub>1 \<le> k\<^sub>2 \<le> \<dots>\<close>, all completed: a subsequence
  of the published frames in non-decreasing publish order (a session that polls faster than
  the capture loop emits a frame again, never an older one). In \<^verbatim>\<open>pi_camera.py\<close> the same
  holds for the list of the values stored in \<^verbatim>\<open>latest_frame_buffer\<close>.
\<close>

theorem emission_order:
  "(\<forall>i < length (sessions (run X evs)).
      \<exists>ks. sorted ks \<and> (\<forall>k \<in> set ks. k < completed (run X evs))
         \<and> map Some (out (sessions (run X evs) ! i)) = map (emitted_chunk X) ks)
   \<and> (\<forall>i < length (psessions (pi_run Y pevs)).
      \<exists>ks. sorted ks \<and> (\<forall>k \<in> set ks. k < length (pi_published Y pevs))
         \<and> map Some (pout (psessions (pi_run Y pevs) ! i)) = map (pi_chunk (pi_published Y pevs)) ks)"
proof (intro conjI allI impI)
  fix i assume "i < length (sessions (run X evs))"
  with sess_inv_run [of X evs] obtain ks
    where "sess_ok X (completed (run X evs)) (sessions (run X evs) ! i) ks"
    by (auto simp: sess_inv_def)
  then show "\<exists>ks. sorted ks \<and> (\<forall>k \<in> set ks. k < completed (run X evs))
         \<and> map Some (out (sessions (run X evs) ! i)) = map (emitted_chunk X) ks"
    by (rule sess_ok_out)
next
  fix i assume "i < length (psessions (pi_run Y pevs))"
  with hist_inv_run [of Y pevs] obtain ks
    where "psess_ok (pi_published Y pevs) (psessions (pi_run Y pevs) ! i) ks"
    by (auto simp: hist_inv_def)
  then show "\<exists>ks. sorted ks \<and> (\<forall>k \<in> set ks. k < length (pi_published Y pevs))
         \<and> map Some (pout (psessions (pi_run Y pevs) ! i)) = map (pi_chunk (pi_published Y pevs)) ks"
    by (rule psess_ok_out)
qed

text \<open>
  A witness: in \<open>demo\<close> a session has emitted the chunk of the frame of publish \<open>0\<close>; in
  \<open>pi_demo\<close> a session has emitted the chunk of the first stored frame.
\<close>

theorem emission_order_witness:
  "0 < length (sessions (run demo (replicate 6 Ev_Capture @ Ev_Connect # replicate 5 (Ev_Session 0))))
   \<and> out (sessions (run demo (replicate 6 Ev_Capture @ Ev_Connect # replicate 5 (Ev_Session 0))) ! 0)
        = [chunk ''jpeg'']
   \<and> emitted_chunk demo 0 = Some (chunk ''jpeg'')
   \<and> (\<exists>ks. sorted ks
         \<and> (\<forall>k \<in> set ks. k < completed (run demo
               (replicate 6 Ev_Capture @ Ev_Connect # replicate 5 (Ev_Session 0))))
         \<and> map Some (out (sessions (run demo
               (replicate 6 Ev_Capture @ Ev_Connect # replicate 5 (Ev_Session 0))) ! 0))
             = map (emitted_chunk demo) ks)
   \<and> 0 < length (psessions (pi_run pi_demo (replicate 3 PEv_Capture @ replicate 5 PEv_Encoder
       @ replicate 6 PEv_Capture @ PEv_Connect # replicate 5 (PEv_Session 0))))
   \<and> pout (psessions (pi_run pi_demo (replicate 3 PEv_Capture @ replicate 5 PEv_Encoder
       @ replicate 6 PEv_Capture @ PEv_Connect # replicate 5 (PEv_Session 0))) ! 0) = [chunk ''jpeg'']
   \<and> pi_published pi_demo (replicate 3 PEv_Capture @ replicate 5 PEv_Encoder
       @ replicate 6 PEv_Capture @ PEv_Connect # replicate 5 (PEv_Session 0)) = [Some ''jpeg'']
   \<and> (\<exists>ks. sorted ks
         \<and> (\<forall>k \<in> set ks. k < length (pi_published pi_demo (replicate 3 PEv_Capture
               @ replicate 5 PEv_Encoder @ replicate 6 PEv_Capture
               @ PEv_Connect # replicate 5 (PEv_Session 0))))
         \<and> map Some (pout (psessions (pi_run pi_demo (replicate 3 PEv_Capture
               @ replicate 5 PEv_Encoder @ replicate 6 PEv_Capture
               @ PEv_Connect # replicate 5 (PEv_Session 0))) ! 0))
             = map (pi_chunk (pi_published pi_demo (replicate 3 PEv_Capture
               @ replicate 5 PEv_Encoder @ replicate 6 PEv_Capture
               @ PEv_Connect # replicate 5 (PEv_Session 0)))) ks)"
proof -
  let ?A = "replicate 6 Ev_Capture @ Ev_Connect # replicate 5 (Ev_Session 0)"
  let ?B = "replicate 3 PEv_Capture @ replicate 5 PEv_Encoder
       @ replicate 6 PEv_Capture @ PEv_Connect # replicate 5 (PEv_Session 0)"
  have a: "0 < length (sessions (run demo ?A))"
    and b: "out (sessions (run demo ?A) ! 0) = [chunk ''jpeg'']"
    by (simp_all add: demo_session_emits)
  have c: "0 < length (psessions (pi_run pi_demo ?B))"
    and d: "pout (psessions (pi_run pi_demo ?B) ! 0) = [chunk ''jpeg'']"
    by (simp_all add: pi_demo_session_emits)
  note t = emission_order [of demo ?A pi_demo ?B]
  from t a have e: "\<exists>ks. sorted ks \<and> (\<forall>k \<in> set ks. k < completed (run demo ?A))
         \<and> map Some (out (sessions (run demo ?A) ! 0)) = map (emitted_chunk demo) ks"
    by blast
  from t c have f: "\<exists>ks. sorted ks \<and> (\<forall>k \<in> set ks. k < length (pi_published pi_demo ?B))
         \<and> map Some (pout (psessions (pi_run pi_demo ?B) ! 0))
             = map (pi_chunk (pi_published pi_demo ?B)) ks"
    by blast
  from a b c d e f demo_emitted_0 pi_demo_stores show ?thesis by blast
qed

subsection \<open>The chunks of the video feed\<close>

text \<open>
  C4. In every reachable state, every chunk a session of \<^verbatim>\<open>main.py\<close> has emitted is the bytes
  \<^verbatim>\<open>--frame\r\nContent-Type: image/jpeg\r\n\r\n\<close>, then the bytes of the array \<^verbatim>\<open>cv2.imencode\<close>
  returned for the copy of a published frame, then \<^verbatim>\<open>\r\n\<close>; every chunk a session of
  \<^verbatim>\<open>pi_camera.py\<close> has emitted is the same bytes around a frame written by the encoder. In
  both files the \<^verbatim>\<open>mimetype\<close> of the response is \<^verbatim>\<open>multipart/x-mixed-replace; boundary=frame\<close>.
\<close>

theorem video_feed_chunks:
  "(\<forall>i < length (sessions (run X evs)). \<forall>c \<in> set (out (sessions (run X evs) ! i)).
      \<exists>k < completed (run X evs). \<exists>f ds ok jpg.
         published X k = Some (f, ds) \<and> imencode X (copy f) = Inr (ok, Ndarray jpg)
       \<and> c = ''--frame'' @ [CHR 0x0D, CHR 0x0A] @ ''Content-Type: image/jpeg''
             @ [CHR 0x0D, CHR 0x0A, CHR 0x0D, CHR 0x0A] @ jpg @ [CHR 0x0D, CHR 0x0A])
   \<and> video_feed_mimetype = ''multipart/x-mixed-replace; boundary=frame''
   \<and> (\<forall>i < length (psessions (pi_run Y pevs)). \<forall>c \<in> set (pout (psessions (pi_run Y pevs) ! i)).
      \<exists>k < nwrites (pi_run Y pevs).
         c = ''--frame'' @ [CHR 0x0D, CHR 0x0A] @ ''Content-Type: image/jpeg''
             @ [CHR 0x0D, CHR 0x0A, CHR 0x0D, CHR 0x0A] @ encoded Y k @ [CHR 0x0D, CHR 0x0A])
   \<and> pi_video_feed_mimetype = ''multipart/x-mixed-replace; boundary=frame''"
proof (intro conjI allI impI ballI)
  fix i c
  assume i: "i < length (sessions (run X evs))" and c: "c \<in> set (out (sessions (run X evs) ! i))"
  from sess_inv_run [of X evs] i obtain ks0
    where "sess_ok X (completed (run X evs)) (sessions (run X evs) ! i) ks0"
    by (auto simp: sess_inv_def)
  from sess_ok_out [OF this] obtain ks
    where b: "\<forall>k \<in> set ks. k < completed (run X evs)"
      and m: "map Some (out (sessions (run X evs) ! i)) = map (emitted_chunk X) ks"
    by blast
  from map_Some_mem [OF m c] obtain k where k: "k \<in> set ks" and e: "emitted_chunk X k = Some c"
    by blast
  from emitted_chunk_Some [OF e] obtain f ds ok jpg
    where "published X k = Some (f, ds)" "imencode X (copy f) = Inr (ok, Ndarray jpg)" "c = chunk jpg"
    by blast
  with b k show "\<exists>k < completed (run X evs). \<exists>f ds ok jpg.
         published X k = Some (f, ds) \<and> imencode X (copy f) = Inr (ok, Ndarray jpg)
       \<and> c = ''--frame'' @ [CHR 0x0D, CHR 0x0A] @ ''Content-Type: image/jpeg''
             @ [CHR 0x0D, CHR 0x0A, CHR 0x0D, CHR 0x0A] @ jpg @ [CHR 0x0D, CHR 0x0A]"
    unfolding chunk_bytes by blast
next
  show "video_feed_mimetype = ''multipart/x-mixed-replace; boundary=frame''"
    by (simp add: video_feed_mimetype_def)
next
  fix i c
  assume i: "i < length (psessions (pi_run Y pevs))"
    and c: "c \<in> set (pout (psessions (pi_run Y pevs) ! i))"
  with pi_prov_run [of Y pevs] obtain b
    where "from_encoder Y (nwrites (pi_run Y pevs)) b" "c = chunk b"
    unfolding pi_prov_def by blast
  then show "\<exists>k < nwrites (pi_run Y pevs).
         c = ''--frame'' @ [CHR 0x0D, CHR 0x0A] @ ''Content-Type: image/jpeg''
             @ [CHR 0x0D, CHR 0x0A, CHR 0x0D, CHR 0x0A] @ encoded Y k @ [CHR 0x0D, CHR 0x0A]"
    unfolding chunk_bytes from_encoder_def by blast
next
  show "pi_video_feed_mimetype = ''multipart/x-mixed-replace; boundary=frame''"
    by (simp add: pi_video_feed_mimetype_def)
qed

text \<open>
  A witness: the chunk emitted in \<open>demo\<close> and the chunk emitted in \<open>pi_demo\<close> are these
  bytes around \<^verbatim>\<open>jpeg\<close>, the encoding of the frame of publish \<open>0\<close> and the first frame of the
  encoder.
\<close>

theorem video_feed_chunks_witness:
  "out (sessions (run demo (replicate 6 Ev_Capture @ Ev_Connect # replicate 5 (Ev_Session 0))) ! 0)
     = [''--frame'' @ [CHR 0x0D, CHR 0x0A] @ ''Content-Type: image/jpeg''
             @ [CHR 0x0D, CHR 0x0A, CHR 0x0D, CHR 0x0A] @ ''jpeg'' @ [CHR 0x0D, CHR 0x0A]]
   \<and> published demo 0 = Some (0, [])
   \<and> imencode demo (copy 0) = Inr (True, Ndarray ''jpeg'')
   \<and> (\<exists>k < completed (run demo (replicate 6 Ev_Capture @ Ev_Connect # replicate 5 (Ev_Session 0))).
        \<exists>f ds ok jpg. published demo k = Some (f, ds)
       \<and> imencode demo (copy f) = Inr (ok, Ndarray jpg)
       \<and> chunk ''jpeg'' = ''--frame'' @ [CHR 0x0D, CHR 0x0A] @ ''Content-Type: image/jpeg''
             @ [CHR 0x0D, CHR 0x0A, CHR 0x0D, CHR 0x0A] @ jpg @ [CHR 0x0D, CHR 0x0A])
   \<and> pout (psessions (pi_run pi_demo (replicate 3 PEv_Capture @ replicate 5 PEv_Encoder
       @ replicate 6 PEv_Capture @ PEv_Connect # replicate 5 (PEv_Session 0))) ! 0)
     = [''--frame'' @ [CHR 0x0D, CHR 0x0A] @ ''Content-Type: image/jpeg''
             @ [CHR 0x0D, CHR 0x0A, CHR 0x0D, CHR 0x0A] @ encoded pi_demo 0 @ [CHR 0x0D, CHR 0x0A]]
   \<and> (\<exists>k < nwrites (pi_run pi_demo (replicate 3 PEv_Capture @ replicate 5 PEv_Encoder
       @ replicate 6 PEv_Capture @ PEv_Connect # replicate 5 (PEv_Session 0))).
         chunk ''jpeg'' = ''--frame'' @ [CHR 0x0D, CHR 0x0A] @ ''Content-Type: image/jpeg''
             @ [CHR 0x0D, CHR 0x0A, CHR 0x0D, CHR 0x0A] @ encoded pi_demo k @ [CHR 0x0D, CHR 0x0A])"
proof -
  let ?A = "replicate 6 Ev_Capture @ Ev_Connect # replicate 5 (Ev_Session 0)"
  let ?B = "replicate 3 PEv_Capture @ replicate 5 PEv_Encoder
       @ replicate 6 PEv_Capture @ PEv_Connect # replicate 5 (PEv_Session 0)"
  have a: "0 < length (sessions (run demo ?A))"
    and b: "chunk ''jpeg'' \<in> set (out (sessions (run demo ?A) ! 0))"
    and b': "out (sessions (run demo ?A) ! 0) = [chunk ''jpeg'']"
    by (simp_all add: demo_session_emits)
  have c: "0 < length (psessions (pi_run pi_demo ?B))"
    and d: "chunk ''jpeg'' \<in> set (pout (psessions (pi_run pi_demo ?B) ! 0))"
    and d': "pout (psessions (pi_run pi_demo ?B) ! 0) = [chunk ''jpeg'']"
    by (simp_all add: pi_demo_session_emits)
  have g: "imencode demo (copy 0) = Inr (True, Ndarray ''jpeg'')" and h: "encoded pi_demo 0 = ''jpeg''"
    by (simp_all add: demo_def pi_demo_def)
  note t = video_feed_chunks [of demo ?A pi_demo ?B]
  from t a b have e: "\<exists>k < completed (run demo ?A).
        \<exists>f ds ok jpg. published demo k = Some (f, ds)
       \<and> imencode demo (copy f) = Inr (ok, Ndarray jpg)
       \<and> chunk ''jpeg'' = ''--frame'' @ [CHR 0x0D, CHR 0x0A] @ ''Content-Type: image/jpeg''
             @ [CHR 0x0D, CHR 0x0A, CHR 0x0D, CHR 0x0A] @ jpg @ [CHR 0x0D, CHR 0x0A]"
    by blast
  from t c d have f: "\<exists>k < nwrites (pi_run pi_demo ?B).
         chunk ''jpeg'' = ''--frame'' @ [CHR 0x0D, CHR 0x0A] @ ''Content-Type: image/jpeg''
             @ [CHR 0x0D, CHR 0x0A, CHR 0x0D, CHR 0x0A] @ encoded pi_demo k @ [CHR 0x0D, CHR 0x0A]"
    by blast
  from b' have b'': "out (sessions (run demo ?A) ! 0)
     = [''--frame'' @ [CHR 0x0D, CHR 0x0A] @ ''Content-Type: image/jpeg''
             @ [CHR 0x0D, CHR 0x0A, CHR 0x0D, CHR 0x0A] @ ''jpeg'' @ [CHR 0x0D, CHR 0x0A]]"
    by (simp only: chunk_bytes)
  from d' h have d'': "pout (psessions (pi_run pi_demo ?B) ! 0)
     = [''--frame'' @ [CHR 0x0D, CHR 0x0A] @ ''Content-Type: image/jpeg''
             @ [CHR 0x0D, CHR 0x0A, CHR 0x0D, CHR 0x0A] @ encoded pi_demo 0 @ [CHR 0x0D, CHR 0x0A]]"
    by (simp only: chunk_bytes)
  from b'' d'' e f g demo_published_0 show ?thesis by blast
qed

subsection \<open>Before the first publish\<close>



subsection \<open>The camera cannot be opened\<close>

text \<open>
  C6. When \<^verbatim>\<open>cap.isOpened()\<close> is false, in every reachable state: the capture thread has not
  yet run, or it has printed \<^verbatim>\<open>Error: Could not open camera.\<close> and returned, which it does at
  its first step; it has read no image and never holds the lock; \<^verbatim>\<open>frame\<close> is \<^verbatim>\<open>None\<close> and
  \<^verbatim>\<open>detections\<close> is empty. The other threads go on: every session has emitted nothing and
  is in its test-and-sleep loop, every response computed is \<^verbatim>\<open>[]\<close>, and a request made when
  the lock is free returns \<^verbatim>\<open>[]\<close>.
\<close>

theorem open_failure_contained:
  assumes "\<not> isOpened X"
  shows "(cap (run X evs) = C_Start \<and> stdout (run X evs) = []
          \<or> cap (run X evs) = C_Done \<and> stdout (run X evs) = [''Error: Could not open camera.''])
       \<and> cap (run X (evs @ [Ev_Capture])) = C_Done
       \<and> stdout (run X (evs @ [Ev_Capture])) = [''Error: Could not open camera.'']
       \<and> nreads (run X evs) = 0 \<and> lock (run X evs) \<noteq> Some T_Capture
       \<and> frame (run X evs) = None \<and> detections (run X evs) = []
       \<and> (\<forall>i < length (sessions (run X evs)).
             out (sessions (run X evs) ! i) = []
           \<and> (spc (sessions (run X evs) ! i) = S_Check \<or> spc (sessions (run X evs) ! i) = S_Sleep))
       \<and> (\<forall>j < length (queries (run X evs)). \<forall>r.
             response (queries (run X evs) ! j) = Some r \<longrightarrow> r = ''[]'')
       \<and> (lock (run X evs) = None \<longrightarrow>
             queries (foldl (step X) (run X evs)
                (Ev_Request # replicate 3 (Ev_Query (length (queries (run X evs))))))
               ! length (queries (run X evs)) = Q_Done ''[]'')"
proof -
  let ?s = "run X evs"
  from assms have c: "closed_inv ?s" by (rule closed_inv_run)
  then have z: "completed ?s = 0" by (auto simp: closed_inv_def completed_def)
  from c have f: "frame ?s = None" and d: "detections ?s = []" by (simp_all add: closed_inv_def)
  from c assms have 1: "cap (run X (evs @ [Ev_Capture])) = C_Done
       \<and> stdout (run X (evs @ [Ev_Capture])) = [''Error: Could not open camera.'']"
    by (auto simp: run_snoc closed_inv_def capture_step_def)
  have 2: "\<forall>i < length (sessions ?s). out (sessions ?s ! i) = []
           \<and> (spc (sessions ?s ! i) = S_Check \<or> spc (sessions ?s ! i) = S_Sleep)"
    using no_output_yet [OF z] sleeping_without_frame [OF f] by blast
  have 3: "\<forall>j < length (queries ?s). \<forall>r. response (queries ?s ! j) = Some r \<longrightarrow> r = ''[]''"
    using empty_response_yet [OF z] by blast
  have 4: "lock ?s = None \<longrightarrow>
             queries (foldl (step X) ?s (Ev_Request # replicate 3 (Ev_Query (length (queries ?s)))))
               ! length (queries ?s) = Q_Done ''[]''"
    using request_completes [of ?s X] d by (simp add: json_dumps_Nil)
  from c have 5: "(cap ?s = C_Start \<and> stdout ?s = []
          \<or> cap ?s = C_Done \<and> stdout ?s = [''Error: Could not open camera.''])
       \<and> nreads ?s = 0 \<and> lock ?s \<noteq> Some T_Capture"
    by (simp add: closed_inv_def)
  from 1 2 3 4 5 f d show ?thesis by blast
qed

text \<open>
  A witness: in \<open>demo_no_camera\<close> the capture thread has returned; a session sleeps, a
  request has returned \<^verbatim>\<open>[]\<close>, and so does the next one.
\<close>

theorem open_failure_contained_witness:
  "\<not> isOpened demo_no_camera
   \<and> run demo_no_camera (Ev_Capture # Ev_Connect # Ev_Session 0 # Ev_Request # replicate 3 (Ev_Query 0)) =
     \<lparr>frame = None, detections = [], lock = None, nreads = 0, cap = C_Done,
      stdout = [''Error: Could not open camera.''],
      sessions = [\<lparr>spc = S_Sleep, out = []\<rparr>], queries = [Q_Done ''[]'']\<rparr>
   \<and> cap (run demo_no_camera
        ((Ev_Capture # Ev_Connect # Ev_Session 0 # Ev_Request # replicate 3 (Ev_Query 0)) @ [Ev_Capture]))
       = C_Done
   \<and> queries (foldl (step demo_no_camera)
          (run demo_no_camera (Ev_Capture # Ev_Connect # Ev_Session 0 # Ev_Request # replicate 3 (Ev_Query 0)))
          (Ev_Request # replicate 3 (Ev_Query (length (queries
             (run demo_no_camera
                (Ev_Capture # Ev_Connect # Ev_Session 0 # Ev_Request # replicate 3 (Ev_Query 0))))))))
        ! length (queries
             (run demo_no_camera (Ev_Capture # Ev_Connect # Ev_Session 0 # Ev_Request # replicate 3 (Ev_Query 0))))
        = Q_Done ''[]''"
proof -
  let ?C = "Ev_Capture # Ev_Connect # Ev_Session 0 # Ev_Request # replicate 3 (Ev_Query 0)"
  have o: "\<not> isOpened demo_no_camera" by (simp add: demo_no_camera_def)
  have l: "lock (run demo_no_camera ?C) = None" by (simp add: demo_no_camera_run)
  note t = open_failure_contained [OF o, of ?C]
  from t have a: "cap (run demo_no_camera (?C @ [Ev_Capture])) = C_Done" by blast
  from t l have r: "queries (foldl (step demo_no_camera) (run demo_no_camera ?C)
          (Ev_Request # replicate 3 (Ev_Query (length (queries (run demo_no_camera ?C))))))
        ! length (queries (run demo_no_camera ?C)) = Q_Done ''[]''"
    by blast
  from o a r demo_no_camera_run show ?thesis by blast
qed

subsection \<open>An iteration without detections publishes\<close>



end
